theory Spec2Isabelle
  imports Complex_Main
begin

section \<open>Characters, exceptions and the numeric type\<close>

text \<open>
  The C++ source (\<^verbatim>\<open>main.cpp\<close>) works on \<^verbatim>\<open>std::string\<close>, a sequence of bytes, here
  \<^typ>\<open>string\<close>. The lexer caches the character under its cursor and uses the byte 0 as
  the sentinel for "no more input".
\<close>

definition NUL :: char where
  "NUL = CHR 0x00"

text \<open>\<^verbatim>\<open>std::isspace\<close> and \<^verbatim>\<open>std::isdigit\<close> in the default "C" locale.\<close>

definition isspace :: "char \<Rightarrow> bool" where
  "isspace c = (c \<in> set [CHR '' '', CHR 0x09, CHR 0x0A, CHR 0x0B, CHR 0x0C, CHR 0x0D])"

definition isdigit :: "char \<Rightarrow> bool" where
  "isdigit c = (c \<in> set ''0123456789'')"

text \<open>
  Every failure of the source is a thrown exception. The program throws
  \<^verbatim>\<open>std::runtime_error\<close> itself; \<^verbatim>\<open>std::stod\<close> throws \<^verbatim>\<open>std::invalid_argument\<close> and
  \<^verbatim>\<open>std::out_of_range\<close>. All three derive from \<^verbatim>\<open>std::exception\<close>, whose \<^verbatim>\<open>what()\<close> is
  the message.
\<close>

datatype exn = runtime_error string | invalid_argument string | out_of_range string

fun what :: "exn \<Rightarrow> string" where
  "what (runtime_error m) = m"
| "what (invalid_argument m) = m"
| "what (out_of_range m) = m"

subsection \<open>IEEE 754 binary64\<close>

text \<open>
  A \<^verbatim>\<open>double\<close> is a finite number \<open>(-1)\<^sup>s \<sqdot> m \<sqdot> 2\<^sup>e\<close>, an infinity or a NaN. A finite
  number is kept in canonical form: \<open>2\<^sup>5\<^sup>2 \<le> m < 2\<^sup>5\<^sup>3\<close> and \<open>-1074 \<le> e \<le> 971\<close> (normal), or
  \<open>m < 2\<^sup>5\<^sup>2\<close> and \<open>e = -1074\<close> (subnormal and zero). Arithmetic computes the exact result and
  rounds it to the nearest double, ties to even (the default rounding mode).
\<close>

datatype double = Finite bool nat int | Infinity bool | NaN

definition dzero :: "bool \<Rightarrow> double" where
  "dzero s = Finite s 0 (- 1074)"

fun bitlen :: "nat \<Rightarrow> nat" where
  "bitlen n = (if n = 0 then 0 else Suc (bitlen (n div 2)))"

declare bitlen.simps [simp del]

text \<open>\<open>rne n d\<close> is \<open>n / d\<close> rounded to the nearest natural number, ties to even.\<close>

definition rne :: "nat \<Rightarrow> nat \<Rightarrow> nat" where
  "rne n d = (let q = n div d; r = n mod d in
     if 2 * r < d then q else if d < 2 * r then Suc q else if even q then q else Suc q)"

text \<open>\<open>ge_pow2 n d k\<close> decides \<open>2\<^sup>k \<le> n / d\<close> for \<open>d > 0\<close>.\<close>

definition ge_pow2 :: "nat \<Rightarrow> nat \<Rightarrow> int \<Rightarrow> bool" where
  "ge_pow2 n d k = (if 0 \<le> k then d * 2 ^ nat k \<le> n else d \<le> n * 2 ^ nat (- k))"

text \<open>\<open>ilog2 n d\<close> is \<open>\<lfloor>log\<^sub>2 (n / d)\<rfloor>\<close> for \<open>n > 0\<close> and \<open>d > 0\<close>.\<close>

definition ilog2 :: "nat \<Rightarrow> nat \<Rightarrow> int" where
  "ilog2 n d = (let k = int (bitlen n) - int (bitlen d) in if ge_pow2 n d k then k else k - 1)"

text \<open>\<open>scaled n d i\<close> is \<open>(n / d) \<sqdot> 2\<^sup>i\<close> rounded to a natural number.\<close>

definition scaled :: "nat \<Rightarrow> nat \<Rightarrow> int \<Rightarrow> nat" where
  "scaled n d i = (if 0 \<le> i then rne (n * 2 ^ nat i) d else rne n (d * 2 ^ nat (- i)))"

text \<open>
  \<open>round_double s n d x\<close> is the double nearest to \<open>(-1)\<^sup>s \<sqdot> (n / d) \<sqdot> 2\<^sup>x\<close>, for \<open>d > 0\<close>:
  overflow gives an infinity, underflow a subnormal number or a zero.
\<close>

definition round_double :: "bool \<Rightarrow> nat \<Rightarrow> nat \<Rightarrow> int \<Rightarrow> double" where
  "round_double s n d x =
     (if n = 0 then dzero s
      else let e = max (ilog2 n d + x - 52) (- 1074);
               m = scaled n d (x - e);
               m' = (if m = 2 ^ 53 then 2 ^ 52 else m);
               e' = (if m = 2 ^ 53 then e + 1 else e)
           in if 971 < e' then Infinity s else Finite s m' e')"

text \<open>\<open>exact_double n d x\<close>: rounding \<open>(n / d) \<sqdot> 2\<^sup>x\<close> loses nothing.\<close>

definition exact_double :: "nat \<Rightarrow> nat \<Rightarrow> int \<Rightarrow> bool" where
  "exact_double n d x =
     (n = 0 \<or> (let e = max (ilog2 n d + x - 52) (- 1074) in
        if 0 \<le> x - e then (n * 2 ^ nat (x - e)) mod d = 0
        else n mod (d * 2 ^ nat (e - x)) = 0))"

fun dneg :: "double \<Rightarrow> double" where
  "dneg (Finite s m e) = Finite (\<not> s) m e"
| "dneg (Infinity s) = Infinity (\<not> s)"
| "dneg NaN = NaN"

text \<open>The signed mantissa of a finite number at exponent \<open>e0 \<le> e\<close>.\<close>

definition aligned :: "bool \<Rightarrow> nat \<Rightarrow> int \<Rightarrow> int \<Rightarrow> int" where
  "aligned s m e e0 = (if s then - 1 else 1) * int m * 2 ^ nat (e - e0)"

fun dadd :: "double \<Rightarrow> double \<Rightarrow> double" where
  "dadd NaN y = NaN"
| "dadd x NaN = NaN"
| "dadd (Infinity s) (Infinity t) = (if s = t then Infinity s else NaN)"
| "dadd (Infinity s) (Finite t m e) = Infinity s"
| "dadd (Finite s m e) (Infinity t) = Infinity t"
| "dadd (Finite s1 m1 e1) (Finite s2 m2 e2) =
     (let e0 = min e1 e2; r = aligned s1 m1 e1 e0 + aligned s2 m2 e2 e0
      in if r = 0 then dzero (s1 \<and> s2) else round_double (r < 0) (nat \<bar>r\<bar>) 1 e0)"

definition dsub :: "double \<Rightarrow> double \<Rightarrow> double" where
  "dsub x y = dadd x (dneg y)"

fun dmul :: "double \<Rightarrow> double \<Rightarrow> double" where
  "dmul NaN y = NaN"
| "dmul x NaN = NaN"
| "dmul (Infinity s) (Infinity t) = Infinity (s \<noteq> t)"
| "dmul (Infinity s) (Finite t m e) = (if m = 0 then NaN else Infinity (s \<noteq> t))"
| "dmul (Finite s m e) (Infinity t) = (if m = 0 then NaN else Infinity (s \<noteq> t))"
| "dmul (Finite s1 m1 e1) (Finite s2 m2 e2) = round_double (s1 \<noteq> s2) (m1 * m2) 1 (e1 + e2)"

fun ddiv :: "double \<Rightarrow> double \<Rightarrow> double" where
  "ddiv NaN y = NaN"
| "ddiv x NaN = NaN"
| "ddiv (Infinity s) (Infinity t) = NaN"
| "ddiv (Infinity s) (Finite t m e) = Infinity (s \<noteq> t)"
| "ddiv (Finite s m e) (Infinity t) = dzero (s \<noteq> t)"
| "ddiv (Finite s1 m1 e1) (Finite s2 m2 e2) =
     (if m2 = 0 then (if m1 = 0 then NaN else Infinity (s1 \<noteq> s2))
      else round_double (s1 \<noteq> s2) m1 m2 (e1 - e2))"

text \<open>The comparison \<^verbatim>\<open>x == 0\<close>: true of both zeros, false of every other double and of NaN.\<close>

fun is_zero :: "double \<Rightarrow> bool" where
  "is_zero (Finite s m e) = (m = 0)"
| "is_zero (Infinity s) = False"
| "is_zero NaN = False"

text \<open>The rational number a finite double stands for.\<close>

fun valof :: "double \<Rightarrow> rat" where
  "valof (Finite s m e) =
     (if s then - 1 else 1) * of_nat m * (if 0 \<le> e then 2 ^ nat e else 1 / 2 ^ nat (- e))"
| "valof (Infinity s) = 0"
| "valof NaN = 0"

subsection \<open>The conversion \<^verbatim>\<open>std::stod\<close>\<close>

text \<open>
  \<^verbatim>\<open>std::stod(str)\<close> calls \<^verbatim>\<open>strtod\<close>, which converts the longest prefix of \<open>str\<close> that is a
  floating-point literal and ignores what follows. It throws \<^verbatim>\<open>std::invalid_argument\<close>
  when no prefix converts, and \<^verbatim>\<open>std::out_of_range\<close> when \<^verbatim>\<open>strtod\<close> reports a range error:
  an overflow, or an underflow, which is a result that is both inexact and tiny. The
  result is correctly rounded. The model covers the strings \<^verbatim>\<open>Lexer::number\<close> builds, which
  hold only digits and dots, so a literal is \<open>digits [. digits]\<close> with at least one digit;
  \<^verbatim>\<open>what()\<close> is \<^verbatim>\<open>"stod"\<close>, as libstdc++ has it.

  \<open>is_tiny n d x\<close>: tininess is detected after rounding, as glibc does on x86-64. The
  number \<open>(n / d) \<sqdot> 2\<^sup>x\<close> is tiny when, rounded to 53 bits with no bound on the exponent, it
  is still below the least normal number \<open>2\<^sup>-\<^sup>1\<^sup>0\<^sup>2\<^sup>2\<close>; a number less than \<open>2\<^sup>-\<^sup>1\<^sup>0\<^sup>7\<^sup>6\<close> below
  \<open>2\<^sup>-\<^sup>1\<^sup>0\<^sup>2\<^sup>2\<close> rounds to \<open>2\<^sup>-\<^sup>1\<^sup>0\<^sup>2\<^sup>2\<close> and is not tiny.
\<close>

definition is_tiny :: "nat \<Rightarrow> nat \<Rightarrow> int \<Rightarrow> bool" where
  "is_tiny n d x =
     (let e = ilog2 n d + x - 52;
          m = scaled n d (x - e)
      in (if m = 2 ^ 53 then e + 1 else e) < - 1074)"

definition digit_val :: "char \<Rightarrow> nat" where
  "digit_val c = of_char c - 48"

definition digits_val :: "string \<Rightarrow> nat" where
  "digits_val ds = foldl (\<lambda>a c. 10 * a + digit_val c) 0 ds"

definition stod :: "string \<Rightarrow> exn + double" where
  "stod str =
     (let ip = takeWhile isdigit str;
          rest = dropWhile isdigit str;
          fp = (case rest of [] \<Rightarrow> [] | c # cs \<Rightarrow> if c = CHR ''.'' then takeWhile isdigit cs else []);
          n = digits_val (ip @ fp);
          d = 10 ^ length fp
      in if ip = [] \<and> fp = [] then Inl (invalid_argument ''stod'')
         else case round_double False n d 0 of
                Infinity s \<Rightarrow> Inl (out_of_range ''stod'')
              | r \<Rightarrow> if n \<noteq> 0 \<and> is_tiny n d 0 \<and> \<not> exact_double n d 0
                     then Inl (out_of_range ''stod'') else Inr r)"


section \<open>Tokens and the lexer\<close>

datatype TokenType = NUMBER | PLUS | MINUS | MULTIPLY | DIVIDE | LPAREN | RPAREN | END_OF_FILE

record Token =
  token_type :: TokenType
  token_value :: double

text \<open>The constructor \<^verbatim>\<open>Token(TokenType t, double v = 0)\<close> with and without its payload.\<close>

definition Token_of :: "TokenType \<Rightarrow> double \<Rightarrow> Token" where
  "Token_of t v = \<lparr>token_type = t, token_value = v\<rparr>"

definition Token0 :: "TokenType \<Rightarrow> Token" where
  "Token0 t = Token_of t (dzero False)"

text \<open>
  The lexer owns the text, a cursor and the cached character under the cursor
  (\<^verbatim>\<open>size_t position\<close> is a natural number here: a string never reaches \<open>2\<^sup>6\<^sup>4\<close> bytes).
\<close>

record Lexer =
  input :: string
  position :: nat
  current_char :: char

definition advance :: "Lexer \<Rightarrow> Lexer" where
  "advance l =
     (let p = Suc (position l)
      in l\<lparr>position := p,
           current_char := (if length (input l) \<le> p then NUL else input l ! p)\<rparr>)"

text \<open>The number of loop iterations a lexer can still make: it bounds every loop below.\<close>

definition remaining :: "Lexer \<Rightarrow> nat" where
  "remaining l = (if current_char l = NUL then 0 else Suc (length (input l) - position l))"

lemma remaining_advance: "current_char l \<noteq> NUL \<Longrightarrow> remaining (advance l) < remaining l"
  by (auto simp: remaining_def advance_def Let_def)

function skip_whitespace :: "Lexer \<Rightarrow> Lexer" where
  "skip_whitespace l =
     (if current_char l \<noteq> NUL \<and> isspace (current_char l) then skip_whitespace (advance l)
      else l)"
  by pat_completeness auto
termination
  by (relation "measure remaining") (auto simp: remaining_advance)

declare skip_whitespace.simps [simp del]

text \<open>
  \<^verbatim>\<open>Lexer::number\<close>: the loop collects the digits and dots under the cursor, then
  \<^verbatim>\<open>std::stod\<close> converts what was collected.
\<close>

function number_loop :: "string \<Rightarrow> Lexer \<Rightarrow> string \<times> Lexer" where
  "number_loop num_str l =
     (if current_char l \<noteq> NUL \<and> (isdigit (current_char l) \<or> current_char l = CHR ''.'')
      then number_loop (num_str @ [current_char l]) (advance l)
      else (num_str, l))"
  by pat_completeness auto
termination
  by (relation "measure (\<lambda>(num_str, l). remaining l)") (auto simp: remaining_advance)

declare number_loop.simps [simp del]

definition number :: "Lexer \<Rightarrow> exn + (double \<times> Lexer)" where
  "number l =
     (case number_loop [] l of (num_str, l') \<Rightarrow>
        (case stod num_str of Inl e \<Rightarrow> Inl e | Inr v \<Rightarrow> Inr (v, l')))"

text \<open>The constructor \<^verbatim>\<open>Lexer(text)\<close>.\<close>

definition Lexer_init :: "string \<Rightarrow> Lexer" where
  "Lexer_init text = \<lparr>input = text, position = 0,
     current_char = (if text = [] then NUL else text ! 0)\<rparr>"

lemma remaining_skip_whitespace: "remaining (skip_whitespace l) \<le> remaining l"
proof (induction l rule: skip_whitespace.induct)
  case (1 l)
  show ?case
  proof (cases "current_char l \<noteq> NUL \<and> isspace (current_char l)")
    case True
    then have "remaining (skip_whitespace (advance l)) \<le> remaining (advance l)"
      using "1" by simp
    also have "\<dots> < remaining l" using True by (simp add: remaining_advance)
    finally show ?thesis using True by (simp add: skip_whitespace.simps [of l])
  next
    case False
    then have "skip_whitespace l = l" by (subst skip_whitespace.simps) auto
    then show ?thesis by simp
  qed
qed

lemma remaining_skip_whitespace_less:
  "current_char l \<noteq> NUL \<Longrightarrow> isspace (current_char l) \<Longrightarrow>
   remaining (skip_whitespace l) < remaining l"
  using remaining_skip_whitespace [of "advance l"] remaining_advance [of l]
  by (simp add: skip_whitespace.simps [of l])

text \<open>
  \<^verbatim>\<open>Lexer::get_next_token\<close>: the \<^verbatim>\<open>while\<close> loop goes round again only after skipping
  white space (\<^verbatim>\<open>continue\<close>); every other branch returns or throws.
\<close>

function get_next_token :: "Lexer \<Rightarrow> exn + (Token \<times> Lexer)" where
  "get_next_token l =
     (if current_char l \<noteq> NUL then
        if isspace (current_char l) then get_next_token (skip_whitespace l)
        else if isdigit (current_char l) \<or> current_char l = CHR ''.'' then
          (case number l of Inl e \<Rightarrow> Inl e | Inr (v, l') \<Rightarrow> Inr (Token_of NUMBER v, l'))
        else if current_char l = CHR ''+'' then Inr (Token0 PLUS, advance l)
        else if current_char l = CHR ''-'' then Inr (Token0 MINUS, advance l)
        else if current_char l = CHR ''*'' then Inr (Token0 MULTIPLY, advance l)
        else if current_char l = CHR ''/'' then Inr (Token0 DIVIDE, advance l)
        else if current_char l = CHR ''('' then Inr (Token0 LPAREN, advance l)
        else if current_char l = CHR '')'' then Inr (Token0 RPAREN, advance l)
        else Inl (runtime_error (''Invalid character: '' @ [current_char l]))
      else Inr (Token0 END_OF_FILE, l))"
  by pat_completeness auto
termination
  by (relation "measure remaining") (auto simp: remaining_skip_whitespace_less)

declare get_next_token.simps [simp del]

section \<open>The syntax tree and its evaluation\<close>

datatype ASTNode =
    NumberNode double
  | BinaryOpNode ASTNode TokenType ASTNode
  | UnaryOpNode TokenType ASTNode

fun evaluate :: "ASTNode \<Rightarrow> exn + double" where
  "evaluate (NumberNode v) = Inr v"
| "evaluate (BinaryOpNode left op right) =
     (case evaluate left of Inl e \<Rightarrow> Inl e | Inr left_val \<Rightarrow>
        (case evaluate right of Inl e \<Rightarrow> Inl e | Inr right_val \<Rightarrow>
           (case op of
              PLUS \<Rightarrow> Inr (dadd left_val right_val)
            | MINUS \<Rightarrow> Inr (dsub left_val right_val)
            | MULTIPLY \<Rightarrow> Inr (dmul left_val right_val)
            | DIVIDE \<Rightarrow>
                if is_zero right_val then Inl (runtime_error ''Division by zero'')
                else Inr (ddiv left_val right_val)
            | _ \<Rightarrow> Inl (runtime_error ''Unknown binary operator''))))"
| "evaluate (UnaryOpNode op operand) =
     (case evaluate operand of Inl e \<Rightarrow> Inl e | Inr val \<Rightarrow>
        (case op of
           PLUS \<Rightarrow> Inr val
         | MINUS \<Rightarrow> Inr (dneg val)
         | _ \<Rightarrow> Inl (runtime_error ''Unknown unary operator'')))"

section \<open>The recursive-descent parser\<close>

record Parser =
  lexer :: Lexer
  current_token :: Token

definition eat :: "TokenType \<Rightarrow> Parser \<Rightarrow> exn + Parser" where
  "eat tt p =
     (if token_type (current_token p) = tt then
        (case get_next_token (lexer p) of
           Inl e \<Rightarrow> Inl e
         | Inr (t, l') \<Rightarrow> Inr (p\<lparr>lexer := l', current_token := t\<rparr>))
      else Inl (runtime_error ''Unexpected token''))"

function factor :: "Parser \<Rightarrow> exn + (ASTNode \<times> Parser)"
  and term_rule :: "Parser \<Rightarrow> exn + (ASTNode \<times> Parser)"
  and term_loop :: "ASTNode \<Rightarrow> Parser \<Rightarrow> exn + (ASTNode \<times> Parser)"
  and expr :: "Parser \<Rightarrow> exn + (ASTNode \<times> Parser)"
  and expr_loop :: "ASTNode \<Rightarrow> Parser \<Rightarrow> exn + (ASTNode \<times> Parser)"
where
  "factor p =
     (let token = current_token p in
      if token_type token = PLUS then
        (case eat PLUS p of Inl e \<Rightarrow> Inl e | Inr p1 \<Rightarrow>
           (case factor p1 of Inl e \<Rightarrow> Inl e | Inr (node, p2) \<Rightarrow>
              Inr (UnaryOpNode PLUS node, p2)))
      else if token_type token = MINUS then
        (case eat MINUS p of Inl e \<Rightarrow> Inl e | Inr p1 \<Rightarrow>
           (case factor p1 of Inl e \<Rightarrow> Inl e | Inr (node, p2) \<Rightarrow>
              Inr (UnaryOpNode MINUS node, p2)))
      else if token_type token = NUMBER then
        (case eat NUMBER p of Inl e \<Rightarrow> Inl e | Inr p1 \<Rightarrow>
           Inr (NumberNode (token_value token), p1))
      else if token_type token = LPAREN then
        (case eat LPAREN p of Inl e \<Rightarrow> Inl e | Inr p1 \<Rightarrow>
           (case expr p1 of Inl e \<Rightarrow> Inl e | Inr (node, p2) \<Rightarrow>
              (case eat RPAREN p2 of Inl e \<Rightarrow> Inl e | Inr p3 \<Rightarrow> Inr (node, p3))))
      else Inl (runtime_error ''Invalid syntax''))"
| "term_rule p =
     (case factor p of Inl e \<Rightarrow> Inl e | Inr (node, p1) \<Rightarrow> term_loop node p1)"
| "term_loop node p =
     (if token_type (current_token p) = MULTIPLY \<or> token_type (current_token p) = DIVIDE then
        (let token = current_token p in
         case (if token_type token = MULTIPLY then eat MULTIPLY p
               else if token_type token = DIVIDE then eat DIVIDE p
               else Inr p) of
           Inl e \<Rightarrow> Inl e
         | Inr p1 \<Rightarrow>
             (case factor p1 of Inl e \<Rightarrow> Inl e | Inr (rhs, p2) \<Rightarrow>
                term_loop (BinaryOpNode node (token_type token) rhs) p2))
      else Inr (node, p))"
| "expr p =
     (case term_rule p of Inl e \<Rightarrow> Inl e | Inr (node, p1) \<Rightarrow> expr_loop node p1)"
| "expr_loop node p =
     (if token_type (current_token p) = PLUS \<or> token_type (current_token p) = MINUS then
        (let token = current_token p in
         case (if token_type token = PLUS then eat PLUS p
               else if token_type token = MINUS then eat MINUS p
               else Inr p) of
           Inl e \<Rightarrow> Inl e
         | Inr p1 \<Rightarrow>
             (case term_rule p1 of Inl e \<Rightarrow> Inl e | Inr (rhs, p2) \<Rightarrow>
                expr_loop (BinaryOpNode node (token_type token) rhs) p2))
      else Inr (node, p))"
  by pat_completeness auto


definition tokens_left :: "Parser \<Rightarrow> nat" where
  "tokens_left p =
     remaining (lexer p) + (if token_type (current_token p) = END_OF_FILE then 0 else 1)"

lemma number_loop_remaining: "number_loop s l = (s', l') \<Longrightarrow> remaining l' \<le> remaining l"
proof (induction s l rule: number_loop.induct)
  case (1 num_str l)
  show ?case
  proof (cases "current_char l \<noteq> NUL \<and> (isdigit (current_char l) \<or> current_char l = CHR ''.'')")
    case True
    then have "number_loop (num_str @ [current_char l]) (advance l) = (s', l')"
      using "1.prems" by (subst (asm) number_loop.simps) simp
    then have "remaining l' \<le> remaining (advance l)" using "1.IH" True by blast
    then show ?thesis using remaining_advance [of l] True by simp
  next
    case False
    then have "l' = l" using "1.prems" by (subst (asm) number_loop.simps) auto
    then show ?thesis by simp
  qed
qed

lemma number_progress:
  assumes "current_char l \<noteq> NUL" "isdigit (current_char l) \<or> current_char l = CHR ''.''"
    and "number l = Inr (v, l')"
  shows "remaining l' < remaining l"
proof -
  obtain s where s: "number_loop [] l = (s, l')"
    using assms(3) by (auto simp: number_def split: prod.splits sum.splits)
  then have "number_loop [current_char l] (advance l) = (s, l')"
    using assms(1,2) by (subst (asm) number_loop.simps) simp
  then have "remaining l' \<le> remaining (advance l)" by (rule number_loop_remaining)
  then show ?thesis using remaining_advance [OF assms(1)] by simp
qed

lemma get_next_token_progress:
  "get_next_token l = Inr (t, l') \<Longrightarrow>
   remaining l' \<le> remaining l \<and> (token_type t \<noteq> END_OF_FILE \<longrightarrow> remaining l' < remaining l)"
proof (induction l rule: get_next_token.induct)
  case (1 l)
  show ?case
  proof (cases "current_char l = NUL")
    case True
    then show ?thesis using "1.prems"
      by (subst (asm) get_next_token.simps) (auto simp: Token0_def Token_of_def)
  next
    case nz: False
    show ?thesis
    proof (cases "isspace (current_char l)")
      case True
      then have "get_next_token (skip_whitespace l) = Inr (t, l')"
        using "1.prems" nz by (subst (asm) get_next_token.simps) simp
      then have "remaining l' \<le> remaining (skip_whitespace l)
          \<and> (token_type t \<noteq> END_OF_FILE \<longrightarrow> remaining l' < remaining (skip_whitespace l))"
        using "1.IH" nz True by blast
      then show ?thesis using remaining_skip_whitespace [of l] by auto
    next
      case False
      have adv: "remaining (advance l) < remaining l" using nz by (rule remaining_advance)
      show ?thesis using "1.prems" nz False adv number_progress [of l]
        by (subst (asm) get_next_token.simps)
           (auto simp: Token0_def Token_of_def split: if_splits sum.splits prod.splits)
    qed
  qed
qed

lemma eat_progress:
  "eat tt p = Inr p' \<Longrightarrow> tt \<noteq> END_OF_FILE \<Longrightarrow> tokens_left p' < tokens_left p"
  by (auto simp: eat_def tokens_left_def split: if_splits sum.splits prod.splits
      dest!: get_next_token_progress)

lemma parser_progress_partial:
  "factor_term_rule_term_loop_expr_expr_loop_dom (Inl (Inl p)) \<Longrightarrow>
     factor p = Inr (n, p') \<Longrightarrow> tokens_left p' < tokens_left p"
  "factor_term_rule_term_loop_expr_expr_loop_dom (Inl (Inr p)) \<Longrightarrow>
     term_rule p = Inr (n, p') \<Longrightarrow> tokens_left p' < tokens_left p"
  "factor_term_rule_term_loop_expr_expr_loop_dom (Inr (Inl (node, p))) \<Longrightarrow>
     term_loop node p = Inr (n, p') \<Longrightarrow> tokens_left p' \<le> tokens_left p"
  "factor_term_rule_term_loop_expr_expr_loop_dom (Inr (Inr (Inl p))) \<Longrightarrow>
     expr p = Inr (n, p') \<Longrightarrow> tokens_left p' < tokens_left p"
  "factor_term_rule_term_loop_expr_expr_loop_dom (Inr (Inr (Inr (node, p)))) \<Longrightarrow>
     expr_loop node p = Inr (n, p') \<Longrightarrow> tokens_left p' \<le> tokens_left p"
proof (induction p and p and node p and p and node p arbitrary: n p' and n p' and n p' and n p' and n p'
    rule: factor_term_rule_term_loop_expr_expr_loop.pinduct)
  case (1 p)
  from "1.prems" "1.hyps" show ?case
    apply (simp add: factor.psimps Let_def split: if_splits sum.splits prod.splits)
    using "1.IH" eat_progress
       apply (fastforce dest: eat_progress)+
    done
next
  case (2 p)
  then show ?case
    by (fastforce simp: term_rule.psimps split: sum.splits prod.splits)
next
  case (3 node p)
  from "3.prems" "3.hyps" show ?case
    apply (simp add: term_loop.psimps Let_def split: if_splits sum.splits prod.splits)
    using "3.IH" eat_progress
    apply (fastforce dest: eat_progress)+
    done
next
  case (4 p)
  then show ?case
    by (fastforce simp: expr.psimps split: sum.splits prod.splits)
next
  case (5 node p)
  from "5.prems" "5.hyps" show ?case
    apply (simp add: expr_loop.psimps Let_def split: if_splits sum.splits prod.splits)
    using "5.IH" eat_progress
    apply (fastforce dest: eat_progress)+
    done
qed

lemma parser_progress_after_eat:
  "eat tt p = Inr b \<Longrightarrow> tt \<noteq> END_OF_FILE \<Longrightarrow>
     factor_term_rule_term_loop_expr_expr_loop_dom (Inl (Inl b)) \<Longrightarrow>
     factor b = Inr (a, ba) \<Longrightarrow> tokens_left ba < tokens_left p"
  "eat tt p = Inr b \<Longrightarrow> tt \<noteq> END_OF_FILE \<Longrightarrow>
     factor_term_rule_term_loop_expr_expr_loop_dom (Inl (Inr b)) \<Longrightarrow>
     term_rule b = Inr (a, ba) \<Longrightarrow> tokens_left ba < tokens_left p"
  using eat_progress [of tt p b] parser_progress_partial(1,2) [of b a ba] by simp_all

termination factor
proof (relation "measure (\<lambda>x. case x of
          Inl (Inl p) \<Rightarrow> 3 * tokens_left p
        | Inl (Inr p) \<Rightarrow> 3 * tokens_left p + 1
        | Inr (Inl (node, p)) \<Rightarrow> 3 * tokens_left p
        | Inr (Inr (Inl p)) \<Rightarrow> 3 * tokens_left p + 2
        | Inr (Inr (Inr (node, p))) \<Rightarrow> 3 * tokens_left p)", goal_cases)
  case 1
  show ?case by simp
qed (auto split: if_splits
       dest: eat_progress parser_progress_partial parser_progress_after_eat)

declare factor.simps [simp del] term_rule.simps [simp del] term_loop.simps [simp del]
  expr.simps [simp del] expr_loop.simps [simp del]

text \<open>The constructor \<^verbatim>\<open>Parser(text)\<close> reads the first token.\<close>

definition Parser_init :: "string \<Rightarrow> exn + Parser" where
  "Parser_init text =
     (case get_next_token (Lexer_init text) of
        Inl e \<Rightarrow> Inl e
      | Inr (t, l') \<Rightarrow> Inr \<lparr>lexer = l', current_token = t\<rparr>)"

definition parse :: "Parser \<Rightarrow> exn + (ASTNode \<times> Parser)" where
  "parse p =
     (case expr p of
        Inl e \<Rightarrow> Inl e
      | Inr (node, p') \<Rightarrow>
          if token_type (current_token p') \<noteq> END_OF_FILE
          then Inl (runtime_error ''Unexpected token at end of expression'')
          else Inr (node, p'))"

section \<open>The entry point\<close>

text \<open>
  \<^verbatim>\<open>ArithmeticCompiler::compile_and_evaluate\<close>: the \<^verbatim>\<open>try\<close> block builds the parser,
  parses and evaluates; the handler catches every \<^verbatim>\<open>std::exception\<close> and throws a
  \<^verbatim>\<open>std::runtime_error\<close> in its place.
\<close>

definition compile_and_evaluate :: "string \<Rightarrow> exn + double" where
  "compile_and_evaluate expression =
     (case (case Parser_init expression of
              Inl e \<Rightarrow> Inl e
            | Inr parser \<Rightarrow>
                (case parse parser of
                   Inl e \<Rightarrow> Inl e
                 | Inr (ast, parser') \<Rightarrow> evaluate ast)) of
        Inl e \<Rightarrow> Inl (runtime_error (''Compilation error: '' @ what e))
      | Inr result \<Rightarrow> Inr result)"

section \<open>Specification-level views of the lexer and the parser\<close>

definition cache_ok :: "Lexer \<Rightarrow> bool" where
  "cache_ok l =
     (current_char l = (if length (input l) \<le> position l then NUL else input l ! position l))"

definition unread :: "Lexer \<Rightarrow> string" where
  "unread l = drop (position l) (input l)"

definition advance_by :: "nat \<Rightarrow> Lexer \<Rightarrow> Lexer" where
  "advance_by k l =
     l\<lparr>position := position l + k,
       current_char := (if length (input l) \<le> position l + k then NUL
                        else input l ! (position l + k))\<rparr>"

abbreviation numch :: "char \<Rightarrow> bool" where
  "numch c \<equiv> isdigit c \<or> c = CHR ''.''"

text \<open>
  One call of the lexer as a function of the unread text alone: the token and the number
  of characters consumed. \<open>scan_nospace\<close> reads a text that does not start with
  white space.
\<close>

definition scan_nospace :: "string \<Rightarrow> exn + (Token \<times> nat)" where
  "scan_nospace r =
     (case r of
        [] \<Rightarrow> Inr (Token0 END_OF_FILE, 0)
      | c # cs \<Rightarrow>
          if c = NUL then Inr (Token0 END_OF_FILE, 0)
          else if numch c then
            (case stod (takeWhile numch r) of
               Inl e \<Rightarrow> Inl e
             | Inr v \<Rightarrow> Inr (Token_of NUMBER v, length (takeWhile numch r)))
          else if c = CHR ''+'' then Inr (Token0 PLUS, 1)
          else if c = CHR ''-'' then Inr (Token0 MINUS, 1)
          else if c = CHR ''*'' then Inr (Token0 MULTIPLY, 1)
          else if c = CHR ''/'' then Inr (Token0 DIVIDE, 1)
          else if c = CHR ''('' then Inr (Token0 LPAREN, 1)
          else if c = CHR '')'' then Inr (Token0 RPAREN, 1)
          else Inl (runtime_error (''Invalid character: '' @ [c])))"

definition scan_token :: "string \<Rightarrow> exn + (Token \<times> nat)" where
  "scan_token s =
     (case scan_nospace (dropWhile isspace s) of
        Inl e \<Rightarrow> Inl e
      | Inr (t, n) \<Rightarrow> Inr (t, length (takeWhile isspace s) + n))"

text \<open>
  The lexers a run can meet: the one the constructor builds, and every lexer a
  successful call of \<^verbatim>\<open>get_next_token\<close> leaves behind.
\<close>

inductive reachable :: "Lexer \<Rightarrow> bool" where
  init: "reachable (Lexer_init text)"
| step: "reachable l \<Longrightarrow> get_next_token l = Inr (t, l') \<Longrightarrow> reachable l'"

text \<open>\<open>n\<close> calls of \<^verbatim>\<open>get_next_token\<close> in a row, as a caller makes them.\<close>

fun next_tokens :: "nat \<Rightarrow> Lexer \<Rightarrow> exn + (Token list \<times> Lexer)" where
  "next_tokens 0 l = Inr ([], l)"
| "next_tokens (Suc n) l =
     (case get_next_token l of
        Inl e \<Rightarrow> Inl e
      | Inr (t, l') \<Rightarrow>
          (case next_tokens n l' of Inl e \<Rightarrow> Inl e | Inr (ts, l'') \<Rightarrow> Inr (t # ts, l'')))"

text \<open>
  The trees whose operators are the ones the evaluator knows: a binary node holds
  PLUS, MINUS, MULTIPLY or DIVIDE, a unary node PLUS or MINUS.
\<close>

fun known_operators :: "ASTNode \<Rightarrow> bool" where
  "known_operators (NumberNode v) = True"
| "known_operators (BinaryOpNode left op right) =
     (op \<in> set [PLUS, MINUS, MULTIPLY, DIVIDE] \<and> known_operators left \<and> known_operators right)"
| "known_operators (UnaryOpNode op operand) =
     (op \<in> set [PLUS, MINUS] \<and> known_operators operand)"

text \<open>
  The exceptions the three stages throw on their own account: the lexer's (an invalid
  character, or what \<^verbatim>\<open>std::stod\<close> throws), the parser's and the evaluator's.
\<close>

definition lexer_cause :: "exn \<Rightarrow> bool" where
  "lexer_cause e =
     (e \<in> set [invalid_argument ''stod'', out_of_range ''stod'']
      \<or> (case e of
            runtime_error m \<Rightarrow> length m = 20 \<and> take 19 m = ''Invalid character: ''
          | _ \<Rightarrow> False))"

definition is_cause :: "exn \<Rightarrow> bool" where
  "is_cause e =
     (lexer_cause e
      \<or> e \<in> set [runtime_error ''Unexpected token'', runtime_error ''Invalid syntax'',
                 runtime_error ''Unexpected token at end of expression'',
                 runtime_error ''Division by zero''])"

text \<open>
  What holds of the lexer throughout a run: the cache is right, the cursor is inside the
  text or at its end, and no NUL byte lies before the cursor.
\<close>

definition lexer_inv :: "Lexer \<Rightarrow> bool" where
  "lexer_inv l =
     (cache_ok l \<and> position l \<le> length (input l) \<and> NUL \<notin> set (take (position l) (input l)))"

text \<open>
  What holds of the parser over the text \<open>s\<close>: its lexer reads \<open>s\<close>, and once the current
  token is the end of the input the lexer's cached character is the sentinel.
\<close>

definition parser_inv :: "string \<Rightarrow> Parser \<Rightarrow> bool" where
  "parser_inv s p =
     (lexer_inv (lexer p) \<and> input (lexer p) = s
      \<and> (token_type (current_token p) = END_OF_FILE \<longrightarrow> current_char (lexer p) = NUL))"

text \<open>
  The grammar of the language, as derivation trees. The rules for \<open>expr\<close> and \<open>term\<close> are
  written left-recursively, which is what "standard precedence and left-associativity"
  means: \<open>a - b - c\<close> has the one tree \<open>ESub (ESub a b) c\<close>, and in \<open>a + b * c\<close> the product
  is a term of the sum. A literal is kept as it is spelled.
\<close>

datatype cfactor = Num string | Paren cexpr | Pos cfactor | Neg cfactor
  and cterm = TFactor cfactor | TMul cterm cfactor | TDiv cterm cfactor
  and cexpr = ETerm cterm | EAdd cexpr cterm | ESub cexpr cterm

text \<open>The lexemes of a tree, in order.\<close>

fun lexemes_f :: "cfactor \<Rightarrow> string list"
  and lexemes_t :: "cterm \<Rightarrow> string list"
  and lexemes_e :: "cexpr \<Rightarrow> string list" where
  "lexemes_f (Num ds) = [ds]"
| "lexemes_f (Paren e) = ''('' # lexemes_e e @ ['')'']"
| "lexemes_f (Pos f) = ''+'' # lexemes_f f"
| "lexemes_f (Neg f) = ''-'' # lexemes_f f"
| "lexemes_t (TFactor f) = lexemes_f f"
| "lexemes_t (TMul t f) = lexemes_t t @ ''*'' # lexemes_f f"
| "lexemes_t (TDiv t f) = lexemes_t t @ ''/'' # lexemes_f f"
| "lexemes_e (ETerm t) = lexemes_t t"
| "lexemes_e (EAdd e t) = lexemes_e e @ ''+'' # lexemes_t t"
| "lexemes_e (ESub e t) = lexemes_e e @ ''-'' # lexemes_t t"

text \<open>
  A text spells a list of lexemes when it is the lexemes in order with white space
  before, between and after them: \<open>spell ws xs\<close> puts the \<open>i\<close>-th string of \<open>ws\<close> before the
  \<open>i\<close>-th lexeme and what is left of \<open>ws\<close> at the end.
\<close>

fun spell :: "string list \<Rightarrow> string list \<Rightarrow> string" where
  "spell ws [] = concat ws"
| "spell [] (x # xs) = x @ spell [] xs"
| "spell (w # ws) (x # xs) = w @ x @ spell ws xs"

text \<open>The value of a literal that \<^verbatim>\<open>std::stod\<close> converts, and the token of a lexeme.\<close>

definition literal_value :: "string \<Rightarrow> double" where
  "literal_value ds = (case stod ds of Inl e \<Rightarrow> NaN | Inr v \<Rightarrow> v)"

definition lexeme_token :: "string \<Rightarrow> Token" where
  "lexeme_token x =
     (if x = ''+'' then Token0 PLUS
      else if x = ''-'' then Token0 MINUS
      else if x = ''*'' then Token0 MULTIPLY
      else if x = ''/'' then Token0 DIVIDE
      else if x = ''('' then Token0 LPAREN
      else if x = '')'' then Token0 RPAREN
      else Token_of NUMBER (literal_value x))"

text \<open>The syntax tree that belongs to a derivation tree.\<close>

fun ast_f :: "cfactor \<Rightarrow> ASTNode"
  and ast_t :: "cterm \<Rightarrow> ASTNode"
  and ast_e :: "cexpr \<Rightarrow> ASTNode" where
  "ast_f (Num ds) = NumberNode (literal_value ds)"
| "ast_f (Paren e) = ast_e e"
| "ast_f (Pos f) = UnaryOpNode PLUS (ast_f f)"
| "ast_f (Neg f) = UnaryOpNode MINUS (ast_f f)"
| "ast_t (TFactor f) = ast_f f"
| "ast_t (TMul t f) = BinaryOpNode (ast_t t) MULTIPLY (ast_f f)"
| "ast_t (TDiv t f) = BinaryOpNode (ast_t t) DIVIDE (ast_f f)"
| "ast_e (ETerm t) = ast_t t"
| "ast_e (EAdd e t) = BinaryOpNode (ast_e e) PLUS (ast_t t)"
| "ast_e (ESub e t) = BinaryOpNode (ast_e e) MINUS (ast_t t)"

text \<open>
  A parser state presents a list of tokens when its current token is the first of them
  and its lexer yields the others in order, the end of the input last.
\<close>

fun presents :: "Parser \<Rightarrow> Token list \<Rightarrow> bool" where
  "presents p [] = (token_type (current_token p) = END_OF_FILE)"
| "presents p (t # ts) =
     (current_token p = t \<and> token_type t \<noteq> END_OF_FILE \<and>
      (case get_next_token (lexer p) of
         Inl e \<Rightarrow> False
       | Inr (t', l') \<Rightarrow> presents \<lparr>lexer = l', current_token = t'\<rparr> ts))"

definition is_literal :: "string \<Rightarrow> bool" where
  "is_literal x = (x \<noteq> [] \<and> list_all numch x)"

text \<open>What may follow a term, and what may follow an expression.\<close>

definition after_term :: "Token list \<Rightarrow> bool" where
  "after_term rest = (case rest of [] \<Rightarrow> True | t # _ \<Rightarrow> token_type t \<notin> {MULTIPLY, DIVIDE})"

definition after_expr :: "Token list \<Rightarrow> bool" where
  "after_expr rest =
     (case rest of [] \<Rightarrow> True | t # _ \<Rightarrow> token_type t \<notin> {PLUS, MINUS, MULTIPLY, DIVIDE})"

text \<open>The literals of a tree are numeric strings.\<close>

fun literals_f :: "cfactor \<Rightarrow> string list"
  and literals_t :: "cterm \<Rightarrow> string list"
  and literals_e :: "cexpr \<Rightarrow> string list" where
  "literals_f (Num ds) = [ds]"
| "literals_f (Paren e) = literals_e e"
| "literals_f (Pos f) = literals_f f"
| "literals_f (Neg f) = literals_f f"
| "literals_t (TFactor f) = literals_f f"
| "literals_t (TMul t f) = literals_t t @ literals_f f"
| "literals_t (TDiv t f) = literals_t t @ literals_f f"
| "literals_e (ETerm t) = literals_t t"
| "literals_e (EAdd e t) = literals_e e @ literals_t t"
| "literals_e (ESub e t) = literals_e e @ literals_t t"

text \<open>The six one-character lexemes, and the literals \<^verbatim>\<open>std::stod\<close> converts.\<close>

definition is_operator :: "string \<Rightarrow> bool" where
  "is_operator x = (x \<in> set [''+'', ''-'', ''*'', ''/'', ''('', '')''])"

definition converts :: "string \<Rightarrow> bool" where
  "converts x = (case stod x of Inl e \<Rightarrow> False | Inr v \<Rightarrow> True)"

definition lexeme_ok :: "string \<Rightarrow> bool" where
  "lexeme_ok x = (is_operator x \<or> (is_literal x \<and> converts x))"

text \<open>No two literals stand next to each other.\<close>

fun separated :: "string list \<Rightarrow> bool" where
  "separated (x # y # r) = (\<not> (is_literal x \<and> is_literal y) \<and> separated (y # r))"
| "separated [x] = True"
| "separated [] = True"

definition blank :: "string \<Rightarrow> bool" where
  "blank w = list_all isspace w"

text \<open>
  The value of a derivation tree in double arithmetic: every literal is converted by
  \<^verbatim>\<open>std::stod\<close>, every operation is the IEEE operation on the values of its operands, the
  left one first, and a division by a zero fails.
\<close>

fun value_f :: "cfactor \<Rightarrow> exn + double"
  and value_t :: "cterm \<Rightarrow> exn + double"
  and value_e :: "cexpr \<Rightarrow> exn + double" where
  "value_f (Num ds) = stod ds"
| "value_f (Paren e) = value_e e"
| "value_f (Pos f) = value_f f"
| "value_f (Neg f) = (case value_f f of Inl x \<Rightarrow> Inl x | Inr v \<Rightarrow> Inr (dneg v))"
| "value_t (TFactor f) = value_f f"
| "value_t (TMul t f) =
     (case value_t t of Inl x \<Rightarrow> Inl x | Inr a \<Rightarrow>
        (case value_f f of Inl x \<Rightarrow> Inl x | Inr b \<Rightarrow> Inr (dmul a b)))"
| "value_t (TDiv t f) =
     (case value_t t of Inl x \<Rightarrow> Inl x | Inr a \<Rightarrow>
        (case value_f f of Inl x \<Rightarrow> Inl x | Inr b \<Rightarrow>
           if is_zero b then Inl (runtime_error ''Division by zero'') else Inr (ddiv a b)))"
| "value_e (ETerm t) = value_t t"
| "value_e (EAdd e t) =
     (case value_e e of Inl x \<Rightarrow> Inl x | Inr a \<Rightarrow>
        (case value_t t of Inl x \<Rightarrow> Inl x | Inr b \<Rightarrow> Inr (dadd a b)))"
| "value_e (ESub e t) =
     (case value_e e of Inl x \<Rightarrow> Inl x | Inr a \<Rightarrow>
        (case value_t t of Inl x \<Rightarrow> Inl x | Inr b \<Rightarrow> Inr (dsub a b)))"

text \<open>
  The expressions of claim C1: integer literals (one digit or more), the four binary
  operators and parentheses; no unary sign.
\<close>

fun integer_f :: "cfactor \<Rightarrow> bool"
  and integer_t :: "cterm \<Rightarrow> bool"
  and integer_e :: "cexpr \<Rightarrow> bool" where
  "integer_f (Num ds) = (ds \<noteq> [] \<and> list_all isdigit ds)"
| "integer_f (Paren e) = integer_e e"
| "integer_f (Pos f) = False"
| "integer_f (Neg f) = False"
| "integer_t (TFactor f) = integer_f f"
| "integer_t (TMul t f) = (integer_t t \<and> integer_f f)"
| "integer_t (TDiv t f) = (integer_t t \<and> integer_f f)"
| "integer_e (ETerm t) = integer_t t"
| "integer_e (EAdd e t) = (integer_e e \<and> integer_t t)"
| "integer_e (ESub e t) = (integer_e e \<and> integer_t t)"

text \<open>The mantissa and exponent pairs of the finite doubles.\<close>

definition canonical :: "nat \<Rightarrow> int \<Rightarrow> bool" where
  "canonical m e =
     ((2 ^ 52 \<le> m \<and> m < 2 ^ 53 \<and> - 1074 \<le> e \<and> e \<le> 971) \<or> (m < 2 ^ 52 \<and> e = - 1074))"

text \<open>
  The mathematical value of a derivation tree whose literals are integers. It is defined
  when every literal and every result in the tree is an integer of magnitude at most
  \<open>2\<^sup>5\<^sup>3\<close>, no divisor is zero and every quotient is an integer.
\<close>

definition in_range :: "int \<Rightarrow> int option" where
  "in_range z = (if \<bar>z\<bar> \<le> 2 ^ 53 then Some z else None)"

fun exact_f :: "cfactor \<Rightarrow> int option"
  and exact_t :: "cterm \<Rightarrow> int option"
  and exact_e :: "cexpr \<Rightarrow> int option" where
  "exact_f (Num ds) =
     (if ds \<noteq> [] \<and> list_all isdigit ds then in_range (int (digits_val ds)) else None)"
| "exact_f (Paren e) = exact_e e"
| "exact_f (Pos f) = exact_f f"
| "exact_f (Neg f) = (case exact_f f of None \<Rightarrow> None | Some a \<Rightarrow> Some (- a))"
| "exact_t (TFactor f) = exact_f f"
| "exact_t (TMul t f) =
     (case exact_t t of None \<Rightarrow> None | Some a \<Rightarrow>
        (case exact_f f of None \<Rightarrow> None | Some b \<Rightarrow> in_range (a * b)))"
| "exact_t (TDiv t f) =
     (case exact_t t of None \<Rightarrow> None | Some a \<Rightarrow>
        (case exact_f f of None \<Rightarrow> None | Some b \<Rightarrow>
           if b \<noteq> 0 \<and> a mod b = 0 then in_range (a div b) else None))"
| "exact_e (ETerm t) = exact_t t"
| "exact_e (EAdd e t) =
     (case exact_e e of None \<Rightarrow> None | Some a \<Rightarrow>
        (case exact_t t of None \<Rightarrow> None | Some b \<Rightarrow> in_range (a + b)))"
| "exact_e (ESub e t) =
     (case exact_e e of None \<Rightarrow> None | Some a \<Rightarrow>
        (case exact_t t of None \<Rightarrow> None | Some b \<Rightarrow> in_range (a - b)))"

text \<open>A finite double that stands for the integer \<open>z\<close>.\<close>

definition yields :: "exn + double \<Rightarrow> int \<Rightarrow> bool" where
  "yields r z = (case r of Inr (Finite s m k) \<Rightarrow> valof (Finite s m k) = of_int z | _ \<Rightarrow> False)"

text \<open>A run of unary signs in front of a factor, and the lexeme of an operator token.\<close>

fun signed :: "TokenType list \<Rightarrow> cfactor \<Rightarrow> cfactor" where
  "signed [] f = f"
| "signed (op # ops) f = (if op = MINUS then Neg (signed ops f) else Pos (signed ops f))"

definition op_lexeme :: "TokenType \<Rightarrow> string" where
  "op_lexeme op =
     (case op of PLUS \<Rightarrow> ''+'' | MINUS \<Rightarrow> ''-'' | MULTIPLY \<Rightarrow> ''*'' | DIVIDE \<Rightarrow> ''/''
      | LPAREN \<Rightarrow> ''('' | RPAREN \<Rightarrow> '')'' | _ \<Rightarrow> [])"

text \<open>The tree of \<open>f op g\<close> for a binary operator \<open>op\<close>.\<close>

definition binary :: "cfactor \<Rightarrow> TokenType \<Rightarrow> cfactor \<Rightarrow> cexpr" where
  "binary f op g =
     (if op = MULTIPLY then ETerm (TMul (TFactor f) g)
      else if op = DIVIDE then ETerm (TDiv (TFactor f) g)
      else if op = MINUS then ESub (ETerm (TFactor f)) (TFactor g)
      else EAdd (ETerm (TFactor f)) (TFactor g))"

section \<open>The lexer\<close>

lemma isspace_not_NUL [simp]: "\<not> isspace NUL"
  by (simp add: isspace_def NUL_def)

lemma isdigit_not_NUL [simp]: "\<not> isdigit NUL"
  by (simp add: isdigit_def NUL_def)

lemma dot_not_NUL [simp]: "CHR ''.'' \<noteq> NUL" "NUL \<noteq> CHR ''.''"
  by (simp_all add: NUL_def)

lemma numch_not_space: "numch c \<Longrightarrow> \<not> isspace c"
  by (auto simp: isdigit_def isspace_def)

lemma cache_ok_Lexer_init [simp]: "cache_ok (Lexer_init s)"
  by (simp add: cache_ok_def Lexer_init_def)

lemma unread_Lexer_init [simp]: "unread (Lexer_init s) = s"
  by (simp add: unread_def Lexer_init_def)

lemma input_Lexer_init [simp]: "input (Lexer_init s) = s"
  by (simp add: Lexer_init_def)

lemma advance_eq: "advance l = advance_by 1 l"
  by (simp add: advance_def advance_by_def Let_def)

lemma advance_by_0: "cache_ok l \<Longrightarrow> advance_by 0 l = l"
  by (simp add: advance_by_def cache_ok_def)

lemma advance_by_add: "advance_by k (advance_by j l) = advance_by (j + k) l"
  by (simp add: advance_by_def add.assoc)

lemma cache_ok_advance_by: "cache_ok l \<or> 0 < k \<Longrightarrow> cache_ok (advance_by k l)"
  by (auto simp: advance_by_def cache_ok_def)

lemma unread_advance_by [simp]: "unread (advance_by k l) = drop k (unread l)"
  by (simp add: advance_by_def unread_def add.commute)

lemma input_advance_by [simp]: "input (advance_by k l) = input l"
  by (simp add: advance_by_def)

lemma position_advance_by [simp]: "position (advance_by k l) = position l + k"
  by (simp add: advance_by_def)

lemma current_char_unread:
  "cache_ok l \<Longrightarrow> current_char l = (case unread l of [] \<Rightarrow> NUL | c # cs \<Rightarrow> c)"
  by (auto simp: cache_ok_def unread_def hd_drop_conv_nth split: list.splits dest: arg_cong [where f = hd]) 

lemma skip_whitespace_eq:
  "cache_ok l \<Longrightarrow> skip_whitespace l = advance_by (length (takeWhile isspace (unread l))) l"
proof (induction l rule: skip_whitespace.induct)
  case (1 l)
  show ?case
  proof (cases "unread l")
    case Nil
    then have "current_char l = NUL" using "1.prems" by (simp add: current_char_unread)
    then show ?thesis using Nil "1.prems"
      by (subst skip_whitespace.simps) (simp add: advance_by_0)
  next
    case (Cons c cs)
    then have cc: "current_char l = c" using "1.prems" by (simp add: current_char_unread)
    show ?thesis
    proof (cases "isspace c")
      case True
      then have nz: "c \<noteq> NUL" by auto
      have "skip_whitespace l = skip_whitespace (advance l)"
        using cc True nz by (subst skip_whitespace.simps) simp
      also have "\<dots> = advance_by (length (takeWhile isspace (unread (advance l)))) (advance l)"
        using "1.IH" cc True nz by (simp add: advance_eq cache_ok_advance_by)
      finally show ?thesis using Cons True
        by (simp add: advance_eq advance_by_add)
    next
      case False
      then show ?thesis using cc Cons "1.prems"
        by (subst skip_whitespace.simps) (simp add: advance_by_0)
    qed
  qed
qed

lemma number_loop_eq:
  "cache_ok l \<Longrightarrow>
   number_loop s l =
     (s @ takeWhile numch (unread l), advance_by (length (takeWhile numch (unread l))) l)"
proof (induction s l rule: number_loop.induct)
  case (1 s l)
  show ?case
  proof (cases "unread l")
    case Nil
    then have "current_char l = NUL" using "1.prems" by (simp add: current_char_unread)
    then show ?thesis using Nil "1.prems"
      by (subst number_loop.simps) (simp add: advance_by_0)
  next
    case (Cons c cs)
    then have cc: "current_char l = c" using "1.prems" by (simp add: current_char_unread)
    show ?thesis
    proof (cases "numch c")
      case True
      then have nz: "c \<noteq> NUL" by auto
      have "number_loop s l = number_loop (s @ [c]) (advance l)"
        using cc True nz by (subst number_loop.simps) simp
      also have "\<dots> = ((s @ [c]) @ takeWhile numch (unread (advance l)),
          advance_by (length (takeWhile numch (unread (advance l)))) (advance l))"
      proof -
        have "cache_ok (advance l)" by (simp add: advance_eq cache_ok_advance_by)
        moreover have "current_char l \<noteq> NUL \<and> numch (current_char l)"
          using cc True nz by simp
        ultimately show ?thesis using "1.IH" cc by blast
      qed
      finally show ?thesis using Cons True
        by (simp add: advance_eq advance_by_add)
    next
      case False
      then show ?thesis using cc Cons "1.prems"
        by (subst number_loop.simps) (simp add: advance_by_0)
    qed
  qed
qed

lemma get_next_token_nospace:
  assumes ok: "cache_ok l" and ns: "unread l = [] \<or> \<not> isspace (hd (unread l))"
  shows "get_next_token l =
     (case scan_nospace (unread l) of Inl e \<Rightarrow> Inl e | Inr (t, n) \<Rightarrow> Inr (t, advance_by n l))"
proof (cases "unread l")
  case Nil
  then have "current_char l = NUL" using ok by (simp add: current_char_unread)
  then show ?thesis using Nil ok
    by (subst get_next_token.simps) (simp add: scan_nospace_def advance_by_0)
next
  case (Cons c cs)
  then have cc: "current_char l = c" using ok by (simp add: current_char_unread)
  have nsp: "\<not> isspace c" using ns Cons by simp
  show ?thesis
  proof (cases "numch c")
    case True
    then have "c \<noteq> NUL" by auto
    then show ?thesis using True cc nsp ok Cons
      by (subst get_next_token.simps)
         (simp add: scan_nospace_def number_def number_loop_eq split: sum.splits)
  next
    case False
    then show ?thesis using cc nsp ok Cons
      by (subst get_next_token.simps)
         (auto simp: scan_nospace_def advance_eq advance_by_0)
  qed
qed

lemma get_next_token_eq:
  assumes ok: "cache_ok l"
  shows "get_next_token l =
     (case scan_token (unread l) of Inl e \<Rightarrow> Inl e | Inr (t, n) \<Rightarrow> Inr (t, advance_by n l))"
proof (cases "unread l = [] \<or> \<not> isspace (hd (unread l))")
  case True
  then have "takeWhile isspace (unread l) = []" "dropWhile isspace (unread l) = unread l"
    by (cases "unread l"; simp)+
  then show ?thesis using get_next_token_nospace [OF ok True]
    by (simp add: scan_token_def split: sum.splits)
next
  case False
  then obtain c cs where u: "unread l = c # cs" and sp: "isspace c"
    by (cases "unread l") auto
  then have cc: "current_char l = c" using ok by (simp add: current_char_unread)
  let ?k = "length (takeWhile isspace (unread l))"
  let ?l1 = "advance_by ?k l"
  have ok1: "cache_ok ?l1" using ok by (simp add: cache_ok_advance_by)
  have u1: "unread ?l1 = dropWhile isspace (unread l)"
    by (simp add: dropWhile_eq_drop)
  have ns1: "unread ?l1 = [] \<or> \<not> isspace (hd (unread ?l1))"
    unfolding u1 by (metis hd_dropWhile)
  have "get_next_token l = get_next_token ?l1"
    using cc sp ok by (subst get_next_token.simps) (auto simp: skip_whitespace_eq)
  also have "\<dots> = (case scan_nospace (unread ?l1) of
        Inl e \<Rightarrow> Inl e | Inr (t, n) \<Rightarrow> Inr (t, advance_by n ?l1))"
    by (rule get_next_token_nospace [OF ok1 ns1])
  finally show ?thesis
    unfolding u1 by (simp add: scan_token_def advance_by_add split: sum.splits)
qed

lemma get_next_token_cache_ok:
  "cache_ok l \<Longrightarrow> get_next_token l = Inr (t, l') \<Longrightarrow> cache_ok l'"
  by (auto simp: get_next_token_eq cache_ok_advance_by split: sum.splits)

lemma get_next_token_input:
  "cache_ok l \<Longrightarrow> get_next_token l = Inr (t, l') \<Longrightarrow> input l' = input l"
  by (auto simp: get_next_token_eq split: sum.splits)

lemma reachable_cache_ok: "reachable l \<Longrightarrow> cache_ok l"
  by (induction rule: reachable.induct) (auto intro: get_next_token_cache_ok)

lemma get_next_token_at_NUL: "current_char l = NUL \<Longrightarrow> get_next_token l = Inr (Token0 END_OF_FILE, l)"
  by (subst get_next_token.simps) simp

lemma next_tokens_at_NUL:
  "current_char l = NUL \<Longrightarrow> next_tokens n l = Inr (replicate n (Token0 END_OF_FILE), l)"
  by (induction n) (simp_all add: get_next_token_at_NUL)

text \<open>
  Claim C6. Once a lexer has consumed all its input (its cursor stands at the end of the
  text), every further call of \<^verbatim>\<open>get_next_token\<close> returns the end-of-input token and
  leaves the lexer as it is, however many calls follow.
\<close>

theorem C6_end_of_input_idempotent:
  assumes "reachable l" and "length (input l) \<le> position l"
  shows "next_tokens n l = Inr (replicate n (Token0 END_OF_FILE), l)"
proof -
  have "cache_ok l" using assms(1) by (rule reachable_cache_ok)
  then have "current_char l = NUL" using assms(2) by (simp add: cache_ok_def)
  then show ?thesis by (rule next_tokens_at_NUL)
qed

lemmas lexer_run_simps = get_next_token.simps skip_whitespace.simps number_def
  number_loop.simps advance_def Lexer_init_def NUL_def isspace_def isdigit_def
  Token0_def Token_of_def dzero_def Let_def

lemmas double_run_simps = stod_def digits_val_def digit_val_def round_double_def ilog2_def
  bitlen.simps ge_pow2_def scaled_def rne_def exact_double_def is_tiny_def aligned_def
  dsub_def

theorem C6_witness:
  "reachable \<lparr>input = ''7'', position = 1, current_char = CHR 0x00\<rparr>
   \<and> next_tokens 3 \<lparr>input = ''7'', position = 1, current_char = CHR 0x00\<rparr>
     = Inr ([Token0 END_OF_FILE, Token0 END_OF_FILE, Token0 END_OF_FILE],
            \<lparr>input = ''7'', position = 1, current_char = CHR 0x00\<rparr>)"
proof -
  let ?l = "\<lparr>input = ''7'', position = 1, current_char = CHR 0x00\<rparr>"
  have "get_next_token (Lexer_init ''7'') = Inr (Token_of NUMBER (Finite False (7 * 2 ^ 50) (- 50)), ?l)"
    by (simp add: lexer_run_simps double_run_simps)
  then have r: "reachable ?l" using reachable.init reachable.step by blast
  show ?thesis
    using r C6_end_of_input_idempotent [OF r, of 3] by (simp add: numeral_3_eq_3)
qed

text \<open>
  Tininess after rounding, at the edge of the normal numbers: \<open>2\<^sup>-\<^sup>1\<^sup>0\<^sup>2\<^sup>2 - 2\<^sup>-\<^sup>1\<^sup>0\<^sup>7\<^sup>6\<close> rounds to
  \<open>2\<^sup>-\<^sup>1\<^sup>0\<^sup>2\<^sup>2\<close> at 53 bits and is not tiny; \<open>2\<^sup>-\<^sup>1\<^sup>0\<^sup>2\<^sup>2 - 3 \<sqdot> 2\<^sup>-\<^sup>1\<^sup>0\<^sup>7\<^sup>7\<close> is tiny, though it
  rounds to the double \<open>2\<^sup>-\<^sup>1\<^sup>0\<^sup>2\<^sup>2\<close> as well.
\<close>

lemma is_tiny_at_least_normal:
  "round_double False (2 ^ 54 - 1) 1 (- 1076) = Finite False (2 ^ 52) (- 1074)
   \<and> \<not> is_tiny (2 ^ 54 - 1) 1 (- 1076)
   \<and> round_double False (2 ^ 55 - 3) 1 (- 1077) = Finite False (2 ^ 52) (- 1074)
   \<and> is_tiny (2 ^ 55 - 3) 1 (- 1077)"
  by (simp add: double_run_simps Let_def)

text \<open>
  Claim C4, as the code has it. When the cursor of a lexer stands at a digit or a dot,
  \<^verbatim>\<open>get_next_token\<close> takes the longest run of digits and dots that starts there (\<open>run\<close>
  below: what follows it is the end of the text or a character that is neither), however
  many dots the run holds, and hands the whole run to \<^verbatim>\<open>std::stod\<close>. When \<^verbatim>\<open>std::stod\<close>
  converts the run, the result is one NUMBER token whose payload is what \<^verbatim>\<open>std::stod\<close>
  returned, with the cursor behind the run; when \<^verbatim>\<open>std::stod\<close> throws, so does the call, and
  there is no token.
\<close>

theorem C4_number_is_maximal_run:
  assumes "reachable l"
    and "unread l = run @ rest" and "run \<noteq> []" and "\<forall>c \<in> set run. isdigit c \<or> c = CHR ''.''"
    and "rest = [] \<or> \<not> (isdigit (hd rest) \<or> hd rest = CHR ''.'')"
  shows "get_next_token l =
     (case stod run of
        Inl e \<Rightarrow> Inl e
      | Inr v \<Rightarrow> Inr (Token_of NUMBER v, advance_by (length run) l))"
proof -
  have ok: "cache_ok l" using assms(1) by (rule reachable_cache_ok)
  have tw: "takeWhile numch (unread l) = run"
    using assms(2,4,5) by (cases rest) (simp_all add: takeWhile_append2 takeWhile_tail)
  obtain c cs where run: "run = c # cs" using assms(3) by (cases run) auto
  then have c: "numch c" using assms(4) by simp
  then have nsp: "\<not> isspace c" by (rule numch_not_space)
  have nz: "c \<noteq> NUL" using c by auto
  have u: "unread l = c # cs @ rest" using assms(2) run by simp
  have "scan_token (unread l) =
      (case stod run of Inl e \<Rightarrow> Inl e | Inr v \<Rightarrow> Inr (Token_of NUMBER v, length run))"
    using tw c nsp nz u by (simp add: scan_token_def scan_nospace_def split: sum.splits)
  then show ?thesis using ok by (simp add: get_next_token_eq split: sum.splits)
qed

theorem C4_witness:
  "get_next_token (Lexer_init ''1.2.3+4'') =
     Inr (Token_of NUMBER (Finite False 5404319552844595 (- 52)),
          \<lparr>input = ''1.2.3+4'', position = 5, current_char = CHR ''+''\<rparr>)"
proof -
  have s: "stod ''1.2.3'' = Inr (Finite False 5404319552844595 (- 52))"
    by (simp add: isdigit_def double_run_simps Let_def)
  have u: "unread (Lexer_init ''1.2.3+4'') = ''1.2.3'' @ ''+4''" by simp
  have "get_next_token (Lexer_init ''1.2.3+4'') =
     (case stod ''1.2.3'' of
        Inl e \<Rightarrow> Inl e
      | Inr v \<Rightarrow> Inr (Token_of NUMBER v, advance_by (length ''1.2.3'') (Lexer_init ''1.2.3+4'')))"
    by (rule C4_number_is_maximal_run [OF reachable.init u]) (simp_all add: isdigit_def)
  then show ?thesis by (simp add: s advance_by_def Lexer_init_def)
qed

text \<open>
  Claim C4 as the spec states it fails on a run without a digit: at \<open>.\<close> the lexer takes
  the dot, \<^verbatim>\<open>std::stod\<close> finds nothing to convert and throws \<^verbatim>\<open>std::invalid_argument\<close>, and
  the call returns no token.
\<close>

theorem C4_counterexample:
  "current_char (Lexer_init ''.'') = CHR ''.''
   \<and> unread (Lexer_init ''.'') = ''.''
   \<and> stod ''.'' = Inl (invalid_argument ''stod'')
   \<and> get_next_token (Lexer_init ''.'') = Inl (invalid_argument ''stod'')"
proof (intro conjI)
  show "current_char (Lexer_init ''.'') = CHR ''.''" by (simp add: Lexer_init_def)
  show "unread (Lexer_init ''.'') = ''.''" by simp
  show "stod ''.'' = Inl (invalid_argument ''stod'')" by (simp add: stod_def isdigit_def)
  show "get_next_token (Lexer_init ''.'') = Inl (invalid_argument ''stod'')"
    by (simp add: lexer_run_simps double_run_simps)
qed

lemmas parser_run_simps = compile_and_evaluate_def Parser_init_def parse_def
  expr.simps expr_loop.simps term_rule.simps term_loop.simps factor.simps eat_def

text \<open>
  Claim C2. A division node whose operands evaluate to \<open>a\<close> and \<open>b\<close> throws "Division by
  zero" exactly when \<open>b\<close> compares equal to zero (\<open>+0\<close> or \<open>-0\<close>; no other double does,
  however small), and returns the IEEE quotient \<open>a / b\<close> otherwise. \<open>5 / 0\<close> fails with
  the wrapped message.
\<close>

theorem C2_division_by_zero:
  "(evaluate left = Inr a \<longrightarrow> evaluate right = Inr b \<longrightarrow>
      evaluate (BinaryOpNode left DIVIDE right) =
        (if is_zero b then Inl (runtime_error ''Division by zero'') else Inr (ddiv a b)))
   \<and> (is_zero b \<longleftrightarrow> (\<exists>s e. b = Finite s 0 e))
   \<and> compile_and_evaluate ''5 / 0'' = Inl (runtime_error ''Compilation error: Division by zero'')"
proof (intro conjI impI)
  assume "evaluate left = Inr a" "evaluate right = Inr b"
  then show "evaluate (BinaryOpNode left DIVIDE right) =
        (if is_zero b then Inl (runtime_error ''Division by zero'') else Inr (ddiv a b))"
    by simp
next
  show "is_zero b \<longleftrightarrow> (\<exists>s e. b = Finite s 0 e)" by (cases b) auto
next
  show "compile_and_evaluate ''5 / 0'' = Inl (runtime_error ''Compilation error: Division by zero'')"
    by (simp add: parser_run_simps lexer_run_simps double_run_simps)
qed

theorem C2_witness:
  "evaluate (BinaryOpNode (NumberNode (Finite False 5 0)) DIVIDE (NumberNode (Finite True 0 (- 1074))))
     = Inl (runtime_error ''Division by zero'')
   \<and> evaluate (BinaryOpNode (NumberNode (Finite False (2 ^ 52) (- 52))) DIVIDE
        (NumberNode (Finite False 1 (- 1074))))
     = Inr (Infinity False)
   \<and> evaluate (BinaryOpNode (NumberNode (Finite False (5 * 2 ^ 50) (- 50))) DIVIDE
        (NumberNode (Finite False (2 ^ 52) (- 51))))
     = Inr (Finite False (5 * 2 ^ 50) (- 51))"
  using C2_division_by_zero [of "NumberNode (Finite False 5 0)" "Finite False 5 0"
      "NumberNode (Finite True 0 (- 1074))" "Finite True 0 (- 1074)"]
    C2_division_by_zero [of "NumberNode (Finite False (2 ^ 52) (- 52))" "Finite False (2 ^ 52) (- 52)"
      "NumberNode (Finite False 1 (- 1074))" "Finite False 1 (- 1074)"]
    C2_division_by_zero [of "NumberNode (Finite False (5 * 2 ^ 50) (- 50))" "Finite False (5 * 2 ^ 50) (- 50)"
      "NumberNode (Finite False (2 ^ 52) (- 51))" "Finite False (2 ^ 52) (- 51)"]
  by (simp add: double_run_simps Let_def)

lemma factor_at_end:
  "token_type (current_token p) = END_OF_FILE \<Longrightarrow> factor p = Inl (runtime_error ''Invalid syntax'')"
  by (subst factor.simps) (simp add: Let_def)

lemma scan_token_spaces:
  assumes "\<forall>c \<in> set s. isspace c"
  shows "scan_token s = Inr (Token0 END_OF_FILE, length s)"
proof -
  have d: "dropWhile isspace s = []" using assms by simp
  have t: "takeWhile isspace s = s" using assms by simp
  show ?thesis unfolding scan_token_def scan_nospace_def d t by simp
qed

text \<open>
  Claim C8. On the empty string, and on every string of white space only, the first token
  is the end of the input, no alternative of \<^verbatim>\<open>factor\<close> matches it, and the call fails with
  "Invalid syntax" inside the wrapper's message.
\<close>

theorem C8_empty_input_fails:
  assumes "\<forall>c \<in> set s. isspace c"
  shows "compile_and_evaluate s = Inl (runtime_error ''Compilation error: Invalid syntax'')"
proof -
  have "get_next_token (Lexer_init s)
      = Inr (Token0 END_OF_FILE, advance_by (length s) (Lexer_init s))"
    using assms by (simp add: get_next_token_eq scan_token_spaces)
  then have "Parser_init s
      = Inr \<lparr>lexer = advance_by (length s) (Lexer_init s), current_token = Token0 END_OF_FILE\<rparr>"
    by (simp add: Parser_init_def)
  moreover have "parse \<lparr>lexer = advance_by (length s) (Lexer_init s),
      current_token = Token0 END_OF_FILE\<rparr> = Inl (runtime_error ''Invalid syntax'')"
    by (simp add: parse_def expr.simps term_rule.simps factor_at_end Token0_def Token_of_def)
  ultimately show ?thesis by (simp add: compile_and_evaluate_def)
qed

theorem C8_witness:
  "compile_and_evaluate '''' = Inl (runtime_error ''Compilation error: Invalid syntax'')
   \<and> compile_and_evaluate [CHR '' '', CHR 0x09, CHR 0x0A]
       = Inl (runtime_error ''Compilation error: Invalid syntax'')"
  using C8_empty_input_fails [of "''''"] C8_empty_input_fails [of "[CHR '' '', CHR 0x09, CHR 0x0A]"]
  by (simp add: isspace_def)

text \<open>
  Claim C10. The lexer takes all of \<open>1.2.3\<close> as one numeric string; \<^verbatim>\<open>std::stod\<close> converts its
  longest valid prefix \<open>1.2\<close> and ignores the rest; the single NUMBER token parses and
  evaluates to the double nearest to \<open>1.2\<close>, and nothing is thrown.
\<close>

theorem C10_malformed_literal_accepted:
  "compile_and_evaluate ''1.2.3'' = Inr (Finite False 5404319552844595 (- 52))
   \<and> get_next_token (Lexer_init ''1.2.3'')
       = Inr (Token_of NUMBER (Finite False 5404319552844595 (- 52)),
              \<lparr>input = ''1.2.3'', position = 5, current_char = NUL\<rparr>)
   \<and> stod ''1.2.3'' = stod ''1.2''
   \<and> \<bar>valof (Finite False 5404319552844595 (- 52)) - 12 / 10\<bar> \<le> 1 / 2 ^ 53"
proof (intro conjI)
  show "compile_and_evaluate ''1.2.3'' = Inr (Finite False 5404319552844595 (- 52))"
    by (simp add: parser_run_simps lexer_run_simps double_run_simps)
  show "get_next_token (Lexer_init ''1.2.3'')
       = Inr (Token_of NUMBER (Finite False 5404319552844595 (- 52)),
              \<lparr>input = ''1.2.3'', position = 5, current_char = NUL\<rparr>)"
    by (simp add: lexer_run_simps double_run_simps)
  show "stod ''1.2.3'' = stod ''1.2''"
    by (simp add: isdigit_def stod_def)
  show "\<bar>valof (Finite False 5404319552844595 (- 52)) - 12 / 10\<bar> \<le> 1 / 2 ^ 53"
    by simp
qed

lemma parser_known_operators:
  "factor p = Inr (n, p') \<Longrightarrow> known_operators n"
  "term_rule p = Inr (n, p') \<Longrightarrow> known_operators n"
  "term_loop node p = Inr (n, p') \<Longrightarrow> known_operators node \<Longrightarrow> known_operators n"
  "expr p = Inr (n, p') \<Longrightarrow> known_operators n"
  "expr_loop node p = Inr (n, p') \<Longrightarrow> known_operators node \<Longrightarrow> known_operators n"
proof (induction p and p and node p and p and node p
    arbitrary: n p' and n p' and n p' and n p' and n p'
    rule: factor_term_rule_term_loop_expr_expr_loop.induct)
  case (1 p)
  from "1.prems" show ?case
    apply (subst (asm) factor.simps)
    apply (simp add: Let_def split: if_splits sum.splits prod.splits)
    using "1.IH" apply fastforce+
    done
next
  case (2 p)
  from "2.prems" show ?case
    apply (subst (asm) term_rule.simps)
    apply (simp split: sum.splits prod.splits)
    using "2.IH" apply fastforce
    done
next
  case (3 node p)
  from "3.prems" show ?case
    apply (subst (asm) term_loop.simps)
    apply (simp add: Let_def split: if_splits sum.splits prod.splits)
    using "3.IH" apply fastforce+
    done
next
  case (4 p)
  from "4.prems" show ?case
    apply (subst (asm) expr.simps)
    apply (simp split: sum.splits prod.splits)
    using "4.IH" apply fastforce
    done
next
  case (5 node p)
  from "5.prems" show ?case
    apply (subst (asm) expr_loop.simps)
    apply (simp add: Let_def split: if_splits sum.splits prod.splits)
    using "5.IH" apply fastforce+
    done
qed

lemma evaluate_known_operators:
  "known_operators a \<Longrightarrow> evaluate a = Inl e \<Longrightarrow> e = runtime_error ''Division by zero''"
  by (induction a arbitrary: e) (auto split: sum.splits if_splits TokenType.splits)

text \<open>
  Claim C9. Every tree \<^verbatim>\<open>parse\<close> returns, from whatever parser state, holds only operators
  the evaluator knows, so the two "Unknown operator" branches are never taken on it: when
  its evaluation fails, the failure is "Division by zero".
\<close>

theorem C9_unknown_operator_unreachable:
  assumes "parse p = Inr (ast, p')"
  shows "known_operators ast
    \<and> evaluate ast \<noteq> Inl (runtime_error ''Unknown binary operator'')
    \<and> evaluate ast \<noteq> Inl (runtime_error ''Unknown unary operator'')
    \<and> (\<forall>e. evaluate ast = Inl e \<longrightarrow> e = runtime_error ''Division by zero'')"
proof -
  have "expr p = Inr (ast, p')"
    using assms by (auto simp: parse_def split: sum.splits prod.splits if_splits)
  then have k: "known_operators ast" by (rule parser_known_operators)
  then show ?thesis using evaluate_known_operators [OF k] by auto
qed

theorem C9_witness:
  "known_operators (BinaryOpNode (UnaryOpNode MINUS (NumberNode (Finite False (2 ^ 52) (- 52))))
       DIVIDE (NumberNode (Finite False 0 (- 1074))))
   \<and> evaluate (BinaryOpNode (UnaryOpNode MINUS (NumberNode (Finite False (2 ^ 52) (- 52))))
       DIVIDE (NumberNode (Finite False 0 (- 1074))))
     = Inl (runtime_error ''Division by zero'')"
proof -
  have "\<exists>p p'. Parser_init ''-1/0'' = Inr p \<and> parse p = Inr (BinaryOpNode (UnaryOpNode MINUS (NumberNode (Finite False (2 ^ 52) (- 52))))
       DIVIDE (NumberNode (Finite False 0 (- 1074))), p')"
    by (simp add: parser_run_simps lexer_run_simps double_run_simps)
  then obtain p p' where "parse p = Inr (BinaryOpNode (UnaryOpNode MINUS (NumberNode (Finite False (2 ^ 52) (- 52))))
       DIVIDE (NumberNode (Finite False 0 (- 1074))), p')" by blast
  from C9_unknown_operator_unreachable [OF this] show ?thesis by simp
qed

lemma stod_cause: "stod s = Inl e \<Longrightarrow> lexer_cause e"
  by (auto simp: stod_def Let_def lexer_cause_def split: if_splits double.splits)

lemma number_cause: "number l = Inl e \<Longrightarrow> lexer_cause e"
  by (auto simp: number_def split: prod.splits sum.splits dest: stod_cause)

lemma get_next_token_cause: "get_next_token l = Inl e \<Longrightarrow> lexer_cause e"
proof (induction l rule: get_next_token.induct)
  case (1 l)
  from "1.prems" show ?case
    apply (subst (asm) get_next_token.simps)
    apply (simp split: if_splits sum.splits prod.splits)
    using "1.IH" number_cause apply (auto simp: lexer_cause_def)
    done
qed

lemma eat_cause: "eat tt p = Inl e \<Longrightarrow> is_cause e"
  by (auto simp: eat_def is_cause_def split: if_splits sum.splits prod.splits
      dest: get_next_token_cause)

lemma parser_cause:
  "factor p = Inl e \<Longrightarrow> is_cause e"
  "term_rule p = Inl e \<Longrightarrow> is_cause e"
  "term_loop node p = Inl e \<Longrightarrow> is_cause e"
  "expr p = Inl e \<Longrightarrow> is_cause e"
  "expr_loop node p = Inl e \<Longrightarrow> is_cause e"
proof (induction p and p and node p and p and node p
    arbitrary: e and e and e and e and e
    rule: factor_term_rule_term_loop_expr_expr_loop.induct)
  case (1 p)
  from "1.prems" show ?case
    apply (subst (asm) factor.simps)
    apply (simp add: Let_def split: if_splits sum.splits prod.splits)
    using "1.IH" eat_cause apply (fastforce simp: is_cause_def)+
    done
next
  case (2 p)
  from "2.prems" show ?case
    apply (subst (asm) term_rule.simps)
    apply (simp split: sum.splits prod.splits)
    using "2.IH" apply fastforce+
    done
next
  case (3 node p)
  from "3.prems" show ?case
    apply (subst (asm) term_loop.simps)
    apply (simp add: Let_def split: if_splits sum.splits prod.splits)
    using "3.IH" eat_cause apply fastforce+
    done
next
  case (4 p)
  from "4.prems" show ?case
    apply (subst (asm) expr.simps)
    apply (simp split: sum.splits prod.splits)
    using "4.IH" apply fastforce+
    done
next
  case (5 node p)
  from "5.prems" show ?case
    apply (subst (asm) expr_loop.simps)
    apply (simp add: Let_def split: if_splits sum.splits prod.splits)
    using "5.IH" eat_cause apply fastforce+
    done
qed

lemma parse_cause: "parse p = Inl e \<Longrightarrow> is_cause e"
  by (auto simp: parse_def is_cause_def split: sum.splits prod.splits if_splits
      dest: parser_cause(4))

lemma Parser_init_cause: "Parser_init s = Inl e \<Longrightarrow> is_cause e"
  by (auto simp: Parser_init_def is_cause_def split: sum.splits prod.splits
      dest: get_next_token_cause)

lemma evaluate_parse_cause: "parse p = Inr (ast, p') \<Longrightarrow> evaluate ast = Inl e \<Longrightarrow> is_cause e"
proof -
  assume a: "parse p = Inr (ast, p')" "evaluate ast = Inl e"
  then have "expr p = Inr (ast, p')"
    by (auto simp: parse_def split: sum.splits prod.splits if_splits)
  then have "known_operators ast" by (rule parser_known_operators)
  then show ?thesis using a(2) by (auto simp: is_cause_def dest: evaluate_known_operators)
qed

text \<open>
  Claim C3. \<^verbatim>\<open>compile_and_evaluate\<close> runs the three stages in order and stops at the first
  that fails: its result is then one \<^verbatim>\<open>std::runtime_error\<close> whose message is
  "Compilation error: " followed by the message of the exception that stage threw, and
  that exception is always a cause of the lexer, the parser or the evaluator (never a
  wrapper again). Only when all three succeed does it return a number: the value of the
  parsed tree.
\<close>

theorem C3_failure_is_wrapped_cause:
  "compile_and_evaluate s =
     (case Parser_init s of
        Inl e \<Rightarrow> Inl (runtime_error (''Compilation error: '' @ what e))
      | Inr p \<Rightarrow>
          (case parse p of
             Inl e \<Rightarrow> Inl (runtime_error (''Compilation error: '' @ what e))
           | Inr (ast, p') \<Rightarrow>
               (case evaluate ast of
                  Inl e \<Rightarrow> Inl (runtime_error (''Compilation error: '' @ what e))
                | Inr v \<Rightarrow> Inr v)))
   \<and> (\<forall>x. compile_and_evaluate s = Inl x \<longrightarrow>
         (\<exists>e. is_cause e \<and> x = runtime_error (''Compilation error: '' @ what e)))"
proof (intro conjI allI impI)
  show "compile_and_evaluate s =
     (case Parser_init s of
        Inl e \<Rightarrow> Inl (runtime_error (''Compilation error: '' @ what e))
      | Inr p \<Rightarrow>
          (case parse p of
             Inl e \<Rightarrow> Inl (runtime_error (''Compilation error: '' @ what e))
           | Inr (ast, p') \<Rightarrow>
               (case evaluate ast of
                  Inl e \<Rightarrow> Inl (runtime_error (''Compilation error: '' @ what e))
                | Inr v \<Rightarrow> Inr v)))"
    by (simp add: compile_and_evaluate_def split: sum.splits prod.splits)
next
  fix x
  assume "compile_and_evaluate s = Inl x"
  then show "\<exists>e. is_cause e \<and> x = runtime_error (''Compilation error: '' @ what e)"
    by (auto simp: compile_and_evaluate_def split: sum.splits prod.splits
        dest: Parser_init_cause parse_cause evaluate_parse_cause)
qed

theorem C3_witness:
  "compile_and_evaluate ''2 $ 3'' = Inl (runtime_error ''Compilation error: Invalid character: $'')
   \<and> (\<exists>e. is_cause e \<and>
         runtime_error ''Compilation error: Invalid character: $''
           = runtime_error (''Compilation error: '' @ what e))"
proof -
  have "compile_and_evaluate ''2 $ 3'' = Inl (runtime_error ''Compilation error: Invalid character: $'')"
    by (simp add: parser_run_simps lexer_run_simps double_run_simps)
  then show ?thesis using C3_failure_is_wrapped_cause [of "''2 $ 3''"] by blast
qed

lemma lexer_inv_Lexer_init: "lexer_inv (Lexer_init s)"
  by (simp add: lexer_inv_def) (simp add: Lexer_init_def)

lemma scan_nospace_consumed:
  assumes "scan_nospace r = Inr (t, n)"
  shows "n \<le> length r \<and> NUL \<notin> set (take n r)
    \<and> (token_type t = END_OF_FILE \<longrightarrow> n = 0 \<and> (r = [] \<or> hd r = NUL))"
proof (cases r)
  case Nil
  then show ?thesis using assms by (simp add: scan_nospace_def)
next
  case (Cons c cs)
  show ?thesis
  proof (cases "c = NUL")
    case True
    then show ?thesis using assms Cons by (simp add: scan_nospace_def)
  next
    case nz: False
    show ?thesis
    proof (cases "numch c")
      case True
      have "take (length (takeWhile numch r)) (takeWhile numch r @ dropWhile numch r)
          = takeWhile numch r"
        by (simp del: takeWhile_dropWhile_id)
      then have tk: "take (length (takeWhile numch r)) r = takeWhile numch r"
        by simp
      have "NUL \<notin> set (takeWhile numch r)"
        using set_takeWhileD [of NUL numch r] by auto
      then show ?thesis using assms Cons True nz tk length_takeWhile_le [of numch r]
        by (auto simp: scan_nospace_def Token_of_def split: sum.splits simp del: takeWhile.simps)
    next
      case False
      then show ?thesis using assms Cons nz
        by (auto simp: scan_nospace_def Token0_def Token_of_def split: if_splits)
    qed
  qed
qed

lemma scan_token_consumed:
  assumes "scan_token s = Inr (t, n)"
  shows "n \<le> length s \<and> NUL \<notin> set (take n s)
    \<and> (token_type t = END_OF_FILE \<longrightarrow> (drop n s = [] \<or> hd (drop n s) = NUL))"
proof -
  define w where "w = takeWhile isspace s"
  define r where "r = dropWhile isspace s"
  have s: "s = w @ r" by (simp add: w_def r_def)
  obtain m where m: "scan_nospace r = Inr (t, m)" and n: "n = length w + m"
    using assms by (auto simp: scan_token_def w_def r_def split: sum.splits)
  note c = scan_nospace_consumed [OF m]
  have "NUL \<notin> set w" using set_takeWhileD [of NUL isspace s] by (auto simp: w_def)
  then show ?thesis using c unfolding s n by auto
qed

lemma get_next_token_inv:
  assumes "lexer_inv l" and "get_next_token l = Inr (t, l')"
  shows "lexer_inv l' \<and> input l' = input l
    \<and> (token_type t = END_OF_FILE \<longrightarrow> current_char l' = NUL)"
proof -
  have ok: "cache_ok l" using assms(1) by (simp add: lexer_inv_def)
  obtain n where n: "scan_token (unread l) = Inr (t, n)" and l': "l' = advance_by n l"
    using assms(2) ok by (auto simp: get_next_token_eq split: sum.splits)
  note c = scan_token_consumed [OF n]
  have ok': "cache_ok l'" using ok l' by (simp add: cache_ok_advance_by)
  have pos: "position l' \<le> length (input l')"
    using c assms(1) l' by (auto simp: lexer_inv_def unread_def)
  have "take (position l + n) (input l) = take (position l) (input l) @ take n (unread l)"
    by (simp add: unread_def take_add)
  then have nul: "NUL \<notin> set (take (position l') (input l'))"
    using c assms(1) l' by (auto simp: lexer_inv_def)
  have "token_type t = END_OF_FILE \<longrightarrow> current_char l' = NUL"
    using c ok' l' by (auto simp: current_char_unread split: list.splits)
  then show ?thesis using ok' pos nul l' by (simp add: lexer_inv_def)
qed

lemma Parser_init_inv: "Parser_init s = Inr p \<Longrightarrow> parser_inv s p"
  using get_next_token_inv [OF lexer_inv_Lexer_init, of s]
  by (auto simp: Parser_init_def parser_inv_def split: sum.splits prod.splits)

lemma eat_inv: "parser_inv s p \<Longrightarrow> eat tt p = Inr p' \<Longrightarrow> parser_inv s p'"
  using get_next_token_inv [of "lexer p"]
  by (auto simp: eat_def parser_inv_def split: if_splits sum.splits prod.splits)

lemma parser_invariant_rule:
  assumes eat: "\<And>tt p p'. I p \<Longrightarrow> eat tt p = Inr p' \<Longrightarrow> I p'"
  shows "factor p = Inr (n, p') \<Longrightarrow> I p \<Longrightarrow> I p'"
    and "term_rule p = Inr (n, p') \<Longrightarrow> I p \<Longrightarrow> I p'"
    and "term_loop node p = Inr (n, p') \<Longrightarrow> I p \<Longrightarrow> I p'"
    and "expr p = Inr (n, p') \<Longrightarrow> I p \<Longrightarrow> I p'"
    and "expr_loop node p = Inr (n, p') \<Longrightarrow> I p \<Longrightarrow> I p'"
proof (induction p and p and node p and p and node p
    arbitrary: n p' and n p' and n p' and n p' and n p'
    rule: factor_term_rule_term_loop_expr_expr_loop.induct)
  case (1 p)
  consider (plus) "token_type (current_token p) = PLUS"
    | (minus) "token_type (current_token p) = MINUS"
    | (num) "token_type (current_token p) = NUMBER"
    | (lparen) "token_type (current_token p) = LPAREN"
    | (other) "token_type (current_token p) \<notin> {PLUS, MINUS, NUMBER, LPAREN}"
    by auto
  then show ?case
  proof cases
    case plus
    then obtain p1 m where e: "eat PLUS p = Inr p1" and f: "factor p1 = Inr (m, p')"
      using "1.prems"(1) by (subst (asm) factor.simps) (auto simp: Let_def split: sum.splits)
    have "I p1" using eat "1.prems"(2) e by blast
    then show ?thesis using "1.IH"(1) [OF refl plus e f] by simp
  next
    case minus
    then obtain p1 m where e: "eat MINUS p = Inr p1" and f: "factor p1 = Inr (m, p')"
      using "1.prems"(1) by (subst (asm) factor.simps) (auto simp: Let_def split: sum.splits)
    have "I p1" using eat "1.prems"(2) e by blast
    then show ?thesis using "1.IH"(2) [OF refl _ minus e f] minus by simp
  next
    case num
    then have "eat NUMBER p = Inr p'"
      using "1.prems"(1) by (subst (asm) factor.simps) (auto simp: Let_def split: sum.splits)
    then show ?thesis using eat "1.prems"(2) by blast
  next
    case lparen
    then obtain p1 p2 where e: "eat LPAREN p = Inr p1" and f: "expr p1 = Inr (n, p2)"
      and r: "eat RPAREN p2 = Inr p'"
      using "1.prems"(1) by (subst (asm) factor.simps) (auto simp: Let_def split: sum.splits)
    have "I p1" using eat "1.prems"(2) e by blast
    then have "I p2" using "1.IH"(3) [OF refl _ _ _ lparen e f] lparen by simp
    then show ?thesis using eat r by blast
  next
    case other
    then show ?thesis
      using "1.prems"(1) by (subst (asm) factor.simps) (auto simp: Let_def)
  qed
next
  case (2 p)
  then obtain m p1 where f: "factor p = Inr (m, p1)" and t: "term_loop m p1 = Inr (n, p')"
    by (subst (asm) term_rule.simps) (auto split: sum.splits)
  have "I p1" using "2.IH"(1) [OF f] "2.prems"(2) by simp
  then show ?case using "2.IH"(2) [OF f refl t] by simp
next
  case (3 node p)
  show ?case
  proof (cases "token_type (current_token p) = MULTIPLY \<or> token_type (current_token p) = DIVIDE")
    case True
    then obtain p1 rhs p2 where e: "(if token_type (current_token p) = MULTIPLY then eat MULTIPLY p
               else if token_type (current_token p) = DIVIDE then eat DIVIDE p
               else Inr p) = Inr p1"
      and f: "factor p1 = Inr (rhs, p2)"
      and t: "term_loop (BinaryOpNode node (token_type (current_token p)) rhs) p2 = Inr (n, p')"
      using "3.prems"(1) by (subst (asm) term_loop.simps) (auto simp: Let_def split: sum.splits)
    have "I p1" using eat "3.prems"(2) e True by (auto split: if_splits)
    then have "I p2" using "3.IH"(1) [OF True refl e f] by simp
    then show ?thesis using "3.IH"(2) [OF True refl e f refl t] by simp
  next
    case False
    then show ?thesis using "3.prems" by (subst (asm) term_loop.simps) auto
  qed
next
  case (4 p)
  then obtain m p1 where f: "term_rule p = Inr (m, p1)" and t: "expr_loop m p1 = Inr (n, p')"
    by (subst (asm) expr.simps) (auto split: sum.splits)
  have "I p1" using "4.IH"(1) [OF f] "4.prems"(2) by simp
  then show ?case using "4.IH"(2) [OF f refl t] by simp
next
  case (5 node p)
  show ?case
  proof (cases "token_type (current_token p) = PLUS \<or> token_type (current_token p) = MINUS")
    case True
    then obtain p1 rhs p2 where e: "(if token_type (current_token p) = PLUS then eat PLUS p
               else if token_type (current_token p) = MINUS then eat MINUS p
               else Inr p) = Inr p1"
      and f: "term_rule p1 = Inr (rhs, p2)"
      and t: "expr_loop (BinaryOpNode node (token_type (current_token p)) rhs) p2 = Inr (n, p')"
      using "5.prems"(1) by (subst (asm) expr_loop.simps) (auto simp: Let_def split: sum.splits)
    have "I p1" using eat "5.prems"(2) e True by (auto split: if_splits)
    then have "I p2" using "5.IH"(1) [OF True refl e f] by simp
    then show ?thesis using "5.IH"(2) [OF True refl e f refl t] by simp
  next
    case False
    then show ?thesis using "5.prems" by (subst (asm) expr_loop.simps) auto
  qed
qed

lemma expr_preserves_inv:
  assumes "expr p = Inr (n, p')" and "parser_inv s p"
  shows "parser_inv s p'"
  by (rule parser_invariant_rule(4) [where I = "parser_inv s", OF _ assms])
     (rule eat_inv; assumption)

lemma cursor_at_first_NUL:
  assumes "cache_ok l" "position l \<le> length (input l)"
    "NUL \<notin> set (take (position l) (input l))" "current_char l = NUL"
  shows "position l = length (takeWhile (\<lambda>c. c \<noteq> NUL) (input l))"
proof -
  define a where "a = take (position l) (input l)"
  define b where "b = drop (position l) (input l)"
  have s: "input l = a @ b" by (simp add: a_def b_def)
  have la: "length a = position l" using assms(2) by (simp add: a_def)
  have "b = [] \<or> hd b = NUL"
    using assms(1,4) by (auto simp: b_def cache_ok_def hd_drop_conv_nth split: if_splits)
  then have "takeWhile (\<lambda>c. c \<noteq> NUL) b = []"
    by (cases b) auto
  moreover have "takeWhile (\<lambda>c. c \<noteq> NUL) (a @ b) = a @ takeWhile (\<lambda>c. c \<noteq> NUL) b"
    using assms(3) by (intro takeWhile_append2) (auto simp: a_def)
  ultimately show ?thesis using la unfolding s by simp
qed

lemma lexeme_token_simps [simp]:
  "lexeme_token ''+'' = Token0 PLUS" "lexeme_token ''-'' = Token0 MINUS"
  "lexeme_token ''*'' = Token0 MULTIPLY" "lexeme_token ''/'' = Token0 DIVIDE"
  "lexeme_token ''('' = Token0 LPAREN" "lexeme_token '')'' = Token0 RPAREN"
  by (simp_all add: lexeme_token_def)

lemma lexeme_token_literal:
  "is_literal x \<Longrightarrow> lexeme_token x = Token_of NUMBER (literal_value x)"
  by (auto simp: lexeme_token_def is_literal_def isdigit_def)

lemma token_type_simps [simp]:
  "token_type (Token0 t) = t" "token_type (Token_of t v) = t" "token_value (Token_of t v) = v"
  by (simp_all add: Token0_def Token_of_def)

lemma presents_current:
  "presents p ts \<Longrightarrow>
     token_type (current_token p) = (case ts of [] \<Rightarrow> END_OF_FILE | t # _ \<Rightarrow> token_type t)"
  by (cases ts) auto

lemma eat_presents:
  assumes "presents p (t # ts)" and "token_type t = tt"
  shows "\<exists>p'. eat tt p = Inr p' \<and> presents p' ts"
proof -
  obtain t' l' where g: "get_next_token (lexer p) = Inr (t', l')"
    and pr: "presents \<lparr>lexer = l', current_token = t'\<rparr> ts"
    using assms(1) by (auto split: sum.splits)
  have "p\<lparr>lexer := l', current_token := t'\<rparr> = \<lparr>lexer = l', current_token = t'\<rparr>"
    by (cases p) simp
  then have "eat tt p = Inr \<lparr>lexer = l', current_token = t'\<rparr>"
    using assms g by (simp add: eat_def)
  then show ?thesis using pr by blast
qed

text \<open>The loops stop at a token that does not continue them.\<close>

lemma term_loop_stops:
  "token_type (current_token p) \<notin> {MULTIPLY, DIVIDE} \<Longrightarrow> term_loop node p = Inr (node, p)"
  by (subst term_loop.simps) simp

lemma expr_loop_stops:
  "token_type (current_token p) \<notin> {PLUS, MINUS} \<Longrightarrow> expr_loop node p = Inr (node, p)"
  by (subst expr_loop.simps) simp

lemma term_loop_step:
  assumes "presents p (Token0 op # ts)" and "op = MULTIPLY \<or> op = DIVIDE"
    and "\<And>p1. presents p1 ts \<Longrightarrow> \<exists>p2. factor p1 = Inr (rhs, p2) \<and> presents p2 rest"
  shows "\<exists>p2. presents p2 rest \<and> term_loop node p = term_loop (BinaryOpNode node op rhs) p2"
proof -
  have ct: "token_type (current_token p) = op" using assms(1) by simp
  obtain p1 where e: "eat op p = Inr p1" and p1: "presents p1 ts"
    using eat_presents [OF assms(1), of op] by auto
  obtain p2 where f: "factor p1 = Inr (rhs, p2)" and p2: "presents p2 rest"
    using assms(3) [OF p1] by blast
  have "term_loop node p = term_loop (BinaryOpNode node op rhs) p2"
    using ct e f assms(2) by (subst term_loop.simps) (auto simp: Let_def)
  then show ?thesis using p2 by blast
qed

lemma expr_loop_step:
  assumes "presents p (Token0 op # ts)" and "op = PLUS \<or> op = MINUS"
    and "\<And>p1. presents p1 ts \<Longrightarrow> \<exists>p2. term_rule p1 = Inr (rhs, p2) \<and> presents p2 rest"
  shows "\<exists>p2. presents p2 rest \<and> expr_loop node p = expr_loop (BinaryOpNode node op rhs) p2"
proof -
  have ct: "token_type (current_token p) = op" using assms(1) by simp
  obtain p1 where e: "eat op p = Inr p1" and p1: "presents p1 ts"
    using eat_presents [OF assms(1), of op] by auto
  obtain p2 where f: "term_rule p1 = Inr (rhs, p2)" and p2: "presents p2 rest"
    using assms(3) [OF p1] by blast
  have "expr_loop node p = expr_loop (BinaryOpNode node op rhs) p2"
    using ct e f assms(2) by (subst expr_loop.simps) (auto simp: Let_def)
  then show ?thesis using p2 by blast
qed

lemma term_rule_from_loop:
  assumes "factor p = Inr (n0, p0)" and "presents p' rest"
    and "term_loop n0 p0 = term_loop node p'" and "after_term rest"
  shows "term_rule p = Inr (node, p')"
proof -
  have "token_type (current_token p') \<notin> {MULTIPLY, DIVIDE}"
    using presents_current [OF assms(2)] assms(4)
    by (auto simp: after_term_def split: list.splits)
  then have "term_loop node p' = Inr (node, p')" by (rule term_loop_stops)
  then show ?thesis using assms(1,3) by (subst term_rule.simps) simp
qed

lemma expr_from_loop:
  assumes "term_rule p = Inr (n0, p0)" and "presents p' rest"
    and "expr_loop n0 p0 = expr_loop node p'" and "after_expr rest"
  shows "expr p = Inr (node, p')"
proof -
  have "token_type (current_token p') \<notin> {PLUS, MINUS}"
    using presents_current [OF assms(2)] assms(4)
    by (auto simp: after_expr_def split: list.splits)
  then have "expr_loop node p' = Inr (node, p')" by (rule expr_loop_stops)
  then show ?thesis using assms(1,3) by (subst expr.simps) simp
qed

lemma parser_follows_grammar:
  "list_all is_literal (literals_f f) \<Longrightarrow>
     presents p (map lexeme_token (lexemes_f f) @ rest) \<Longrightarrow>
     \<exists>p'. factor p = Inr (ast_f f, p') \<and> presents p' rest"
  "list_all is_literal (literals_t t) \<Longrightarrow>
     presents p (map lexeme_token (lexemes_t t) @ rest) \<Longrightarrow>
     \<exists>n0 p0 p'. factor p = Inr (n0, p0) \<and> presents p' rest
        \<and> term_loop n0 p0 = term_loop (ast_t t) p'"
  "list_all is_literal (literals_e e) \<Longrightarrow>
     presents p (map lexeme_token (lexemes_e e) @ rest) \<Longrightarrow> after_term rest \<Longrightarrow>
     \<exists>n0 p0 p'. term_rule p = Inr (n0, p0) \<and> presents p' rest
        \<and> expr_loop n0 p0 = expr_loop (ast_e e) p'"
proof (induction f and t and e arbitrary: p rest and p rest and p rest)
  case (Num ds)
  then have lit: "is_literal ds" by simp
  have pr: "presents p (Token_of NUMBER (literal_value ds) # rest)"
    using Num.prems(2) lit by (simp add: lexeme_token_literal)
  then obtain p' where "eat NUMBER p = Inr p'" "presents p' rest"
    using eat_presents [OF pr, of NUMBER] by auto
  moreover have "current_token p = Token_of NUMBER (literal_value ds)" using pr by simp
  ultimately show ?case by (subst factor.simps) (auto simp: Let_def)
next
  case (Paren e)
  have pr: "presents p (Token0 LPAREN # map lexeme_token (lexemes_e e) @ Token0 RPAREN # rest)"
    using Paren.prems(2) by simp
  then obtain p1 where e1: "eat LPAREN p = Inr p1"
    and p1: "presents p1 (map lexeme_token (lexemes_e e) @ Token0 RPAREN # rest)"
    using eat_presents [OF pr, of LPAREN] by auto
  have "after_term (Token0 RPAREN # rest)" by (simp add: after_term_def)
  then obtain n0 p0 p2 where t: "term_rule p1 = Inr (n0, p0)"
    and p2: "presents p2 (Token0 RPAREN # rest)"
    and l: "expr_loop n0 p0 = expr_loop (ast_e e) p2"
    using Paren.IH [OF _ p1] Paren.prems(1) by auto
  have "expr_loop (ast_e e) p2 = Inr (ast_e e, p2)"
    using p2 by (intro expr_loop_stops) simp
  then have ex: "expr p1 = Inr (ast_e e, p2)" using t l by (subst expr.simps) simp
  obtain p3 where e3: "eat RPAREN p2 = Inr p3" and p3: "presents p3 rest"
    using eat_presents [OF p2, of RPAREN] by auto
  have "token_type (current_token p) = LPAREN" using pr by simp
  then have "factor p = Inr (ast_f (Paren e), p3)"
    using e1 ex e3 by (subst factor.simps) (simp add: Let_def)
  then show ?case using p3 by blast
next
  case (Pos f)
  have pr: "presents p (Token0 PLUS # map lexeme_token (lexemes_f f) @ rest)"
    using Pos.prems(2) by simp
  then obtain p1 where e1: "eat PLUS p = Inr p1"
    and p1: "presents p1 (map lexeme_token (lexemes_f f) @ rest)"
    using eat_presents [OF pr, of PLUS] by auto
  obtain p' where f: "factor p1 = Inr (ast_f f, p')" and p': "presents p' rest"
    using Pos.IH [OF _ p1] Pos.prems(1) by auto
  have "token_type (current_token p) = PLUS" using pr by simp
  then have "factor p = Inr (ast_f (Pos f), p')"
    using e1 f by (subst factor.simps) (simp add: Let_def)
  then show ?case using p' by blast
next
  case (Neg f)
  have pr: "presents p (Token0 MINUS # map lexeme_token (lexemes_f f) @ rest)"
    using Neg.prems(2) by simp
  then obtain p1 where e1: "eat MINUS p = Inr p1"
    and p1: "presents p1 (map lexeme_token (lexemes_f f) @ rest)"
    using eat_presents [OF pr, of MINUS] by auto
  obtain p' where f: "factor p1 = Inr (ast_f f, p')" and p': "presents p' rest"
    using Neg.IH [OF _ p1] Neg.prems(1) by auto
  have "token_type (current_token p) = MINUS" using pr by simp
  then have "factor p = Inr (ast_f (Neg f), p')"
    using e1 f by (subst factor.simps) (simp add: Let_def)
  then show ?case using p' by blast
next
  case (TFactor f)
  then show ?case by fastforce
next
  case (TMul t f)
  have pr: "presents p (map lexeme_token (lexemes_t t)
      @ Token0 MULTIPLY # map lexeme_token (lexemes_f f) @ rest)"
    using TMul.prems(2) by simp
  obtain n0 p0 p1 where f0: "factor p = Inr (n0, p0)"
    and p1: "presents p1 (Token0 MULTIPLY # map lexeme_token (lexemes_f f) @ rest)"
    and l: "term_loop n0 p0 = term_loop (ast_t t) p1"
    using TMul.IH(1) [OF _ pr] TMul.prems(1) by auto
  have "\<exists>p2. presents p2 rest
      \<and> term_loop (ast_t t) p1 = term_loop (BinaryOpNode (ast_t t) MULTIPLY (ast_f f)) p2"
    using TMul.IH(2) TMul.prems(1) by (intro term_loop_step [OF p1]) auto
  then show ?case using f0 l by auto
next
  case (TDiv t f)
  have pr: "presents p (map lexeme_token (lexemes_t t)
      @ Token0 DIVIDE # map lexeme_token (lexemes_f f) @ rest)"
    using TDiv.prems(2) by simp
  obtain n0 p0 p1 where f0: "factor p = Inr (n0, p0)"
    and p1: "presents p1 (Token0 DIVIDE # map lexeme_token (lexemes_f f) @ rest)"
    and l: "term_loop n0 p0 = term_loop (ast_t t) p1"
    using TDiv.IH(1) [OF _ pr] TDiv.prems(1) by auto
  have "\<exists>p2. presents p2 rest
      \<and> term_loop (ast_t t) p1 = term_loop (BinaryOpNode (ast_t t) DIVIDE (ast_f f)) p2"
    using TDiv.IH(2) TDiv.prems(1) by (intro term_loop_step [OF p1]) auto
  then show ?case using f0 l by auto
next
  case (ETerm t)
  obtain n0 p0 p' where f0: "factor p = Inr (n0, p0)" and p': "presents p' rest"
    and l: "term_loop n0 p0 = term_loop (ast_t t) p'"
    using ETerm.IH [of p rest] ETerm.prems by auto
  have "term_rule p = Inr (ast_t t, p')"
    using f0 p' l ETerm.prems(3) by (rule term_rule_from_loop)
  then show ?case using p' by auto
next
  case (EAdd e t)
  have pr: "presents p (map lexeme_token (lexemes_e e)
      @ Token0 PLUS # map lexeme_token (lexemes_t t) @ rest)"
    using EAdd.prems(2) by simp
  have "after_term (Token0 PLUS # map lexeme_token (lexemes_t t) @ rest)"
    by (simp add: after_term_def)
  then obtain n0 p0 p1 where t0: "term_rule p = Inr (n0, p0)"
    and p1: "presents p1 (Token0 PLUS # map lexeme_token (lexemes_t t) @ rest)"
    and l: "expr_loop n0 p0 = expr_loop (ast_e e) p1"
    using EAdd.IH(1) [OF _ pr] EAdd.prems(1) by auto
  have rhs: "\<exists>p3. term_rule p2 = Inr (ast_t t, p3) \<and> presents p3 rest"
    if pr2: "presents p2 (map lexeme_token (lexemes_t t) @ rest)" for p2
  proof -
    obtain m0 q0 p3 where "factor p2 = Inr (m0, q0)" "presents p3 rest"
      "term_loop m0 q0 = term_loop (ast_t t) p3"
      using EAdd.IH(2) [OF _ pr2] EAdd.prems(1) by auto
    then show ?thesis using term_rule_from_loop [OF _ _ _ EAdd.prems(3)] by blast
  qed
  have "\<exists>p2. presents p2 rest
      \<and> expr_loop (ast_e e) p1 = expr_loop (BinaryOpNode (ast_e e) PLUS (ast_t t)) p2"
    using rhs by (intro expr_loop_step [OF p1]) auto
  then show ?case using t0 l by auto
next
  case (ESub e t)
  have pr: "presents p (map lexeme_token (lexemes_e e)
      @ Token0 MINUS # map lexeme_token (lexemes_t t) @ rest)"
    using ESub.prems(2) by simp
  have "after_term (Token0 MINUS # map lexeme_token (lexemes_t t) @ rest)"
    by (simp add: after_term_def)
  then obtain n0 p0 p1 where t0: "term_rule p = Inr (n0, p0)"
    and p1: "presents p1 (Token0 MINUS # map lexeme_token (lexemes_t t) @ rest)"
    and l: "expr_loop n0 p0 = expr_loop (ast_e e) p1"
    using ESub.IH(1) [OF _ pr] ESub.prems(1) by auto
  have rhs: "\<exists>p3. term_rule p2 = Inr (ast_t t, p3) \<and> presents p3 rest"
    if pr2: "presents p2 (map lexeme_token (lexemes_t t) @ rest)" for p2
  proof -
    obtain m0 q0 p3 where "factor p2 = Inr (m0, q0)" "presents p3 rest"
      "term_loop m0 q0 = term_loop (ast_t t) p3"
      using ESub.IH(2) [OF _ pr2] ESub.prems(1) by auto
    then show ?thesis using term_rule_from_loop [OF _ _ _ ESub.prems(3)] by blast
  qed
  have "\<exists>p2. presents p2 rest
      \<and> expr_loop (ast_e e) p1 = expr_loop (BinaryOpNode (ast_e e) MINUS (ast_t t)) p2"
    using rhs by (intro expr_loop_step [OF p1]) auto
  then show ?case using t0 l by auto
qed

lemma expr_follows_grammar:
  assumes "list_all is_literal (literals_e e)"
    and "presents p (map lexeme_token (lexemes_e e) @ rest)" and "after_expr rest"
  shows "\<exists>p'. expr p = Inr (ast_e e, p') \<and> presents p' rest"
proof -
  have "after_term rest" using assms(3) by (auto simp: after_term_def after_expr_def split: list.splits)
  then obtain n0 p0 p' where "term_rule p = Inr (n0, p0)" "presents p' rest"
    "expr_loop n0 p0 = expr_loop (ast_e e) p'"
    using parser_follows_grammar(3) [OF assms(1,2)] by blast
  then show ?thesis using expr_from_loop [OF _ _ _ assms(3)] by blast
qed

lemma parse_follows_grammar:
  assumes "list_all is_literal (literals_e e)"
    and "presents p (map lexeme_token (lexemes_e e))"
  shows "\<exists>p'. parse p = Inr (ast_e e, p')"
proof -
  obtain p' where "expr p = Inr (ast_e e, p')" "presents p' []"
    using expr_follows_grammar [OF assms(1), of p "[]"] assms(2) by (auto simp: after_expr_def)
  then show ?thesis by (simp add: parse_def)
qed

lemma operator_not_literal: "is_operator x \<Longrightarrow> \<not> is_literal x"
  by (auto simp: is_operator_def is_literal_def isdigit_def)

lemma operator_head:
  "is_operator x \<Longrightarrow> \<exists>c. x = [c] \<and> \<not> isspace c \<and> \<not> numch c \<and> c \<noteq> NUL"
  by (auto simp: is_operator_def isspace_def isdigit_def NUL_def)

lemma literal_value_eq: "stod x = Inr v \<Longrightarrow> literal_value x = v"
  by (simp add: literal_value_def)

lemma scan_operator:
  assumes "blank w" and "is_operator x"
  shows "scan_token (w @ x @ r) = Inr (lexeme_token x, length w + 1)"
proof -
  obtain c where x: "x = [c]" and c: "\<not> isspace c" "\<not> numch c" "c \<noteq> NUL"
    using operator_head [OF assms(2)] by blast
  have tw: "takeWhile isspace (w @ x @ r) = w" "dropWhile isspace (w @ x @ r) = c # r"
    using assms(1) c(1) x by (simp_all add: blank_def list_all_iff takeWhile_append2 dropWhile_append2)
  have "c \<in> set ''+-*/()''" using assms(2) x by (auto simp: is_operator_def)
  then show ?thesis
    unfolding scan_token_def tw using c x
    by (auto simp: scan_nospace_def lexeme_token_def)
qed

lemma scan_literal:
  assumes "blank w" and "is_literal x" and "stod x = Inr v"
    and "r = [] \<or> \<not> numch (hd r)"
  shows "scan_token (w @ x @ r) = Inr (Token_of NUMBER v, length w + length x)"
proof -
  obtain c cs where x: "x = c # cs" using assms(2) by (cases x) (auto simp: is_literal_def)
  have all: "\<forall>d \<in> set x. numch d" using assms(2) by (simp add: is_literal_def list_all_iff)
  then have c: "numch c" using x by simp
  then have nsp: "\<not> isspace c" by (rule numch_not_space)
  have nz: "c \<noteq> NUL" using c by auto
  have tw: "takeWhile isspace (w @ x @ r) = w" "dropWhile isspace (w @ x @ r) = x @ r"
    using assms(1) nsp x by (simp_all add: blank_def list_all_iff takeWhile_append2 dropWhile_append2)
  have run: "takeWhile numch (x @ r) = x"
    using all assms(4) by (cases r) (simp_all add: takeWhile_append2)
  have "scan_nospace (x @ r) = Inr (Token_of NUMBER v, length x)"
    using c nz assms(3) run x by (simp add: scan_nospace_def del: takeWhile.simps)
  then show ?thesis unfolding scan_token_def tw by simp
qed

lemma spell_blank:
  "list_all blank ws \<Longrightarrow> list_all isspace (spell ws [])"
  by (induction ws) (auto simp: blank_def)

lemma numch_not_NUL: "numch c \<Longrightarrow> c \<noteq> NUL"
  by auto

lemma spell_head:
  assumes "list_all blank ws" and "xs = [] \<or> is_operator (hd xs)"
    and "tail = [] \<or> hd tail = NUL"
  shows "spell ws xs @ tail = [] \<or> \<not> numch (hd (spell ws xs @ tail))"
proof (cases xs)
  case Nil
  have sp: "list_all isspace (spell ws [])" using assms(1) by (rule spell_blank)
  show ?thesis
  proof (cases "spell ws []")
    case Nil
    then show ?thesis using \<open>xs = []\<close> assms(3) numch_not_NUL
      by (cases tail) (auto simp del: spell.simps)
  next
    case (Cons c cs)
    then show ?thesis using \<open>xs = []\<close> sp numch_not_space
      by (auto simp del: spell.simps)
  qed
next
  case (Cons x xs')
  then obtain c where x: "x = [c]" and c: "\<not> numch c"
    using assms(2) operator_head [of x] by auto
  show ?thesis
  proof (cases ws)
    case Nil
    then show ?thesis using Cons x c by simp
  next
    case (Cons w ws')
    then show ?thesis using \<open>xs = x # xs'\<close> x c assms(1) numch_not_space
      by (cases w) (auto simp: blank_def)
  qed
qed

lemma scan_token_spaces_tail:
  assumes "\<forall>c \<in> set s. isspace c" and "tail = [] \<or> hd tail = NUL"
  shows "scan_token (s @ tail) = Inr (Token0 END_OF_FILE, length s)"
proof -
  have nsp: "tail = [] \<or> \<not> isspace (hd tail)"
    using assms(2) isspace_not_NUL by auto
  have d: "dropWhile isspace (s @ tail) = tail"
    using assms(1) nsp by (cases tail) (simp_all add: dropWhile_append2)
  have t: "takeWhile isspace (s @ tail) = s"
    using assms(1) nsp by (cases tail) (simp_all add: takeWhile_append2)
  have "scan_nospace tail = Inr (Token0 END_OF_FILE, 0)"
    using assms(2) by (cases tail) (simp_all add: scan_nospace_def)
  then show ?thesis unfolding scan_token_def d t by simp
qed

text \<open>
  The lexer reads a spelling of a list of lexemes as their tokens, also when a NUL byte
  and anything else follows the spelling.
\<close>

lemma lexer_presents:
  assumes "list_all blank ws" and "list_all lexeme_ok xs" and "separated xs"
    and "tail = [] \<or> hd tail = NUL"
    and "cache_ok l" and "unread l = spell ws xs @ tail"
  shows "\<exists>t l'. get_next_token l = Inr (t, l')
    \<and> presents \<lparr>lexer = l', current_token = t\<rparr> (map lexeme_token xs)"
  using assms
proof (induction xs arbitrary: ws l)
  case Nil
  have "\<forall>c \<in> set (spell ws []). isspace c"
    using spell_blank [OF Nil.prems(1)] by (simp add: list_all_iff)
  then have "scan_token (spell ws [] @ tail) = Inr (Token0 END_OF_FILE, length (spell ws []))"
    using Nil.prems(4) by (rule scan_token_spaces_tail)
  then have "scan_token (unread l) = Inr (Token0 END_OF_FILE, length (spell ws []))"
    by (simp only: Nil.prems(6))
  then show ?case using Nil.prems(5) by (simp add: get_next_token_eq)
next
  case (Cons x xs)
  define w where "w = (case ws of [] \<Rightarrow> [] | w # _ \<Rightarrow> w)"
  define ws' where "ws' = (case ws of [] \<Rightarrow> [] | _ # ws' \<Rightarrow> ws')"
  have u: "unread l = w @ x @ (spell ws' xs @ tail)"
    using Cons.prems(6) by (cases ws) (simp_all add: w_def ws'_def)
  have bw: "blank w"
    using Cons.prems(1) by (cases ws) (simp_all add: w_def blank_def)
  have bws: "list_all blank ws'"
    using Cons.prems(1) by (cases ws) (simp_all add: ws'_def)
  have okx: "lexeme_ok x" and okxs: "list_all lexeme_ok xs" using Cons.prems(2) by simp_all
  have sep: "separated xs" using Cons.prems(3) by (cases xs) simp_all
  have "\<exists>n. scan_token (unread l) = Inr (lexeme_token x, n) \<and> n = length w + length x"
  proof (cases "is_operator x")
    case True
    then obtain c where "x = [c]" using operator_head by blast
    then show ?thesis using scan_operator [OF bw True] u by simp
  next
    case False
    then have lit: "is_literal x" and conv: "converts x"
      using okx by (simp_all add: lexeme_ok_def)
    then obtain v where v: "stod x = Inr v" by (auto simp: converts_def split: sum.splits)
    have "xs = [] \<or> is_operator (hd xs)"
      using Cons.prems(3) okxs lit by (cases xs) (auto simp: lexeme_ok_def)
    then have "spell ws' xs @ tail = [] \<or> \<not> numch (hd (spell ws' xs @ tail))"
      using Cons.prems(4) by (rule spell_head [OF bws])
    then have "scan_token (w @ x @ (spell ws' xs @ tail))
        = Inr (Token_of NUMBER v, length w + length x)"
      by (rule scan_literal [OF bw lit v])
    then show ?thesis
      unfolding u by (simp add: lexeme_token_literal [OF lit] literal_value_eq [OF v])
  qed
  then have g: "get_next_token l = Inr (lexeme_token x, advance_by (length w + length x) l)"
    using Cons.prems(5) by (auto simp: get_next_token_eq)
  let ?l1 = "advance_by (length w + length x) l"
  have ok1: "cache_ok ?l1" using Cons.prems(5) by (simp add: cache_ok_advance_by)
  have u1: "unread ?l1 = spell ws' xs @ tail" using u by simp
  obtain t l' where g1: "get_next_token ?l1 = Inr (t, l')"
    and pr: "presents \<lparr>lexer = l', current_token = t\<rparr> (map lexeme_token xs)"
    using Cons.IH [OF bws okxs sep Cons.prems(4) ok1 u1] by blast
  have "token_type (lexeme_token x) \<noteq> END_OF_FILE"
    by (simp add: lexeme_token_def)
  then have "presents \<lparr>lexer = ?l1, current_token = lexeme_token x\<rparr>
      (map lexeme_token (x # xs))"
    using g1 pr by simp
  then show ?case using g by blast
qed

lemma Parser_init_presents:
  assumes "list_all blank ws" and "list_all lexeme_ok xs" and "separated xs"
    and "tail = [] \<or> hd tail = NUL"
  shows "\<exists>p. Parser_init (spell ws xs @ tail) = Inr p \<and> presents p (map lexeme_token xs)"
  using lexer_presents [OF assms cache_ok_Lexer_init unread_Lexer_init]
  by (auto simp: Parser_init_def)

lemma separated_append:
  "separated xs \<Longrightarrow> separated ys \<Longrightarrow> is_operator x \<Longrightarrow> separated (xs @ x # ys)"
proof (induction xs rule: separated.induct)
  case (1 x y r)
  then show ?case by simp
next
  case (2 y)
  then show ?case by (cases ys) (auto dest: operator_not_literal)
next
  case 3
  then show ?case by (cases ys) (auto dest: operator_not_literal)
qed

lemma separated_snoc: "separated xs \<Longrightarrow> is_operator x \<Longrightarrow> separated (xs @ [x])"
  using separated_append [of xs "[]" x] by simp

lemma separated_Cons: "separated ys \<Longrightarrow> is_operator x \<Longrightarrow> separated (x # ys)"
  using separated_append [of "[]" ys x] by simp

lemma is_operator_simps [simp]:
  "is_operator ''+''" "is_operator ''-''" "is_operator ''*''" "is_operator ''/''"
  "is_operator ''(''" "is_operator '')''"
  by (simp_all add: is_operator_def)

lemma separated_lexemes:
  "separated (lexemes_f f)" "separated (lexemes_t t)" "separated (lexemes_e e)"
proof (induction f and t and e)
  case (Paren e)
  then show ?case
    using separated_Cons [OF separated_snoc [of "lexemes_e e" "'')''"], of "''(''"] by simp
qed (simp_all add: separated_append separated_Cons)

lemma lexemes_ok:
  "list_all (\<lambda>x. is_literal x \<and> converts x) (literals_f f) \<Longrightarrow> list_all lexeme_ok (lexemes_f f)"
  "list_all (\<lambda>x. is_literal x \<and> converts x) (literals_t t) \<Longrightarrow> list_all lexeme_ok (lexemes_t t)"
  "list_all (\<lambda>x. is_literal x \<and> converts x) (literals_e e) \<Longrightarrow> list_all lexeme_ok (lexemes_e e)"
  by (induction f and t and e) (auto simp: lexeme_ok_def)

lemma lexeme_no_NUL:
  assumes "lexeme_ok x"
  shows "NUL \<notin> set x"
proof (cases "is_operator x")
  case True
  then obtain c where "x = [c]" "c \<noteq> NUL" using operator_head by blast
  then show ?thesis by simp
next
  case False
  then have all: "\<forall>c \<in> set x. numch c"
    using assms by (simp add: lexeme_ok_def is_literal_def list_all_iff)
  show ?thesis
  proof
    assume "NUL \<in> set x"
    with all have "numch NUL" by blast
    then show False by simp
  qed
qed

lemma blank_no_NUL:
  assumes "blank w"
  shows "NUL \<notin> set w"
proof
  assume "NUL \<in> set w"
  moreover have "\<forall>c \<in> set w. isspace c" using assms by (simp add: blank_def list_all_iff)
  ultimately have "isspace NUL" by blast
  then show False by simp
qed

lemma spell_no_NUL:
  "list_all blank ws \<Longrightarrow> list_all lexeme_ok xs \<Longrightarrow> NUL \<notin> set (spell ws xs)"
proof (induction ws xs rule: spell.induct)
  case (1 ws)
  show ?case
  proof
    assume "NUL \<in> set (spell ws [])"
    then obtain w where "w \<in> set ws" "NUL \<in> set w" by auto
    moreover from this(1) have "blank w" using "1.prems"(1) by (simp add: list_all_iff)
    ultimately show False using blank_no_NUL by blast
  qed
next
  case (2 x xs)
  have "lexeme_ok x" "list_all lexeme_ok xs" using "2.prems"(2) by simp_all
  then have "NUL \<notin> set x" "NUL \<notin> set (spell [] xs)"
    using lexeme_no_NUL "2.IH" by simp_all
  then show ?case by simp
next
  case (3 w ws x xs)
  have "lexeme_ok x" "list_all lexeme_ok xs" using "3.prems"(2) by simp_all
  moreover have "blank w" "list_all blank ws" using "3.prems"(1) by simp_all
  ultimately have "NUL \<notin> set x" "NUL \<notin> set w" "NUL \<notin> set (spell ws xs)"
    using lexeme_no_NUL blank_no_NUL "3.IH" by simp_all
  then show ?case by simp
qed

text \<open>
  Where the cursor stands when \<^verbatim>\<open>parse\<close> returns a tree: at the first NUL byte of the
  text, or at its end.
\<close>

lemma parse_cursor:
  assumes "Parser_init s = Inr p" and "parse p = Inr (ast, p1)"
  shows "input (lexer p1) = s"
    and "position (lexer p1) = length (takeWhile (\<lambda>c. c \<noteq> NUL) s)"
proof -
  have e: "expr p = Inr (ast, p1)" and eof: "token_type (current_token p1) = END_OF_FILE"
    using assms(2) by (auto simp: parse_def split: sum.splits prod.splits if_splits)
  have inv: "parser_inv s p1"
    using e Parser_init_inv [OF assms(1)] by (rule expr_preserves_inv)
  then show inp: "input (lexer p1) = s" by (simp add: parser_inv_def)
  have c: "cache_ok (lexer p1)" "position (lexer p1) \<le> length (input (lexer p1))"
    "NUL \<notin> set (take (position (lexer p1)) (input (lexer p1)))"
    "current_char (lexer p1) = NUL"
    using inv eof by (auto simp: parser_inv_def lexer_inv_def)
  show "position (lexer p1) = length (takeWhile (\<lambda>c. c \<noteq> NUL) s)"
    using cursor_at_first_NUL [OF c] inp by simp
qed

text \<open>
  The parser reads every spelling of a derivation tree as the syntax tree of that
  derivation, and stops at the end of the spelling: a NUL byte behind it hides what
  follows.
\<close>

lemma parse_spelled_tail:
  assumes "list_all blank ws" and "list_all (\<lambda>x. is_literal x \<and> converts x) (literals_e e)"
    and "tail = [] \<or> hd tail = NUL"
  shows "\<exists>p p'. Parser_init (spell ws (lexemes_e e) @ tail) = Inr p
    \<and> parse p = Inr (ast_e e, p')
    \<and> position (lexer p') = length (spell ws (lexemes_e e))"
proof -
  let ?t = "spell ws (lexemes_e e)"
  have ok: "list_all lexeme_ok (lexemes_e e)" using assms(2) by (rule lexemes_ok(3))
  obtain p where p: "Parser_init (?t @ tail) = Inr p"
    and pr: "presents p (map lexeme_token (lexemes_e e))"
    using Parser_init_presents [OF assms(1) ok separated_lexemes(3) assms(3)]
    by blast
  have "list_all is_literal (literals_e e)" using assms(2) by (simp add: list_all_iff)
  then obtain p' where p': "parse p = Inr (ast_e e, p')"
    using parse_follows_grammar [OF _ pr] by blast
  have n: "NUL \<notin> set ?t" using assms(1) ok by (rule spell_no_NUL)
  have "takeWhile (\<lambda>c. c \<noteq> NUL) tail = []" using assms(3) by (cases tail) auto
  moreover have "takeWhile (\<lambda>c. c \<noteq> NUL) (?t @ tail) = ?t @ takeWhile (\<lambda>c. c \<noteq> NUL) tail"
    using n by (intro takeWhile_append2) auto
  ultimately have "takeWhile (\<lambda>c. c \<noteq> NUL) (?t @ tail) = ?t" by simp
  then have "position (lexer p') = length ?t"
    using parse_cursor(2) [OF p p'] by simp
  then show ?thesis using p p' by blast
qed

lemma parse_spelled:
  assumes "list_all blank ws" and "list_all (\<lambda>x. is_literal x \<and> converts x) (literals_e e)"
  shows "\<exists>p p'. Parser_init (spell ws (lexemes_e e)) = Inr p \<and> parse p = Inr (ast_e e, p')"
  using parse_spelled_tail [OF assms, of "[]"] by auto

text \<open>
  Claim C5, as the code has it. \<^verbatim>\<open>parse\<close> runs \<^verbatim>\<open>expr\<close> and then throws "Unexpected token at
  end of expression" exactly when the current token is not the end of the input; so
  \<open>2 + 3)\<close> fails. When it returns a tree, the lexer has read the text up to its first NUL
  byte, or all of it when it holds none: the lexer takes a NUL byte for the end of the
  input. The tree is the root of that part of the text: every spelling of a derivation
  tree of the grammar, with nothing behind it or a NUL byte and anything else, parses to
  the syntax tree of that derivation, with the cursor at the end of the spelling.
\<close>

theorem C5_parse_rejects_trailing_tokens:
  "parse p =
     (case expr p of
        Inl e \<Rightarrow> Inl e
      | Inr (node, p') \<Rightarrow>
          if token_type (current_token p') = END_OF_FILE then Inr (node, p')
          else Inl (runtime_error ''Unexpected token at end of expression''))
   \<and> (Parser_init s = Inr p \<longrightarrow> parse p = Inr (ast, p1) \<longrightarrow>
        input (lexer p1) = s
        \<and> position (lexer p1) = length (takeWhile (\<lambda>c. c \<noteq> NUL) s)
        \<and> (NUL \<notin> set s \<longrightarrow> position (lexer p1) = length s))
   \<and> (list_all blank ws \<longrightarrow> list_all is_literal (literals_e e) \<longrightarrow>
        list_all converts (literals_e e) \<longrightarrow> (tail = [] \<or> hd tail = NUL) \<longrightarrow>
        (\<exists>q q'. Parser_init (spell ws (lexemes_e e) @ tail) = Inr q
           \<and> parse q = Inr (ast_e e, q')
           \<and> position (lexer q') = length (spell ws (lexemes_e e))))
   \<and> compile_and_evaluate ''2 + 3)''
        = Inl (runtime_error ''Compilation error: Unexpected token at end of expression'')"
proof (intro conjI impI)
  show "parse p =
     (case expr p of
        Inl e \<Rightarrow> Inl e
      | Inr (node, p') \<Rightarrow>
          if token_type (current_token p') = END_OF_FILE then Inr (node, p')
          else Inl (runtime_error ''Unexpected token at end of expression''))"
    by (simp add: parse_def split: sum.splits prod.splits)
next
  show "compile_and_evaluate ''2 + 3)''
        = Inl (runtime_error ''Compilation error: Unexpected token at end of expression'')"
    by (simp add: parser_run_simps lexer_run_simps double_run_simps)
next
  assume init: "Parser_init s = Inr p" and parse: "parse p = Inr (ast, p1)"
  show "input (lexer p1) = s" using init parse by (rule parse_cursor(1))
  show pos: "position (lexer p1) = length (takeWhile (\<lambda>c. c \<noteq> NUL) s)"
    using init parse by (rule parse_cursor(2))
  assume "NUL \<notin> set s"
  then have tw: "takeWhile (\<lambda>c. c \<noteq> NUL) s = s" by auto
  from pos show "position (lexer p1) = length s" unfolding tw .
next
  assume "list_all blank ws" and "list_all is_literal (literals_e e)"
    and "list_all converts (literals_e e)" and "tail = [] \<or> hd tail = NUL"
  moreover from this(2,3) have "list_all (\<lambda>x. is_literal x \<and> converts x) (literals_e e)"
    by (simp add: list_all_iff)
  ultimately show "\<exists>q q'. Parser_init (spell ws (lexemes_e e) @ tail) = Inr q
           \<and> parse q = Inr (ast_e e, q')
           \<and> position (lexer q') = length (spell ws (lexemes_e e))"
    by (intro parse_spelled_tail)
qed

text \<open>
  The witness: \<open>(2+3) *4\<close> parses to the product of the sum and 4, with nothing behind it
  and with a NUL byte and a parenthesis behind it, and the cursor stops after the 4.
\<close>

theorem C5_witness:
  "(\<exists>q q'. Parser_init ''(2+3) *4'' = Inr q
      \<and> parse q = Inr (BinaryOpNode
            (BinaryOpNode (NumberNode (Finite False (2 ^ 52) (- 51))) PLUS
               (NumberNode (Finite False (3 * 2 ^ 51) (- 51))))
            MULTIPLY (NumberNode (Finite False (2 ^ 52) (- 50))), q')
      \<and> input (lexer q') = ''(2+3) *4'' \<and> position (lexer q') = 8)
   \<and> (\<exists>q q'. Parser_init (''(2+3) *4'' @ [NUL, CHR '')'']) = Inr q
      \<and> parse q = Inr (BinaryOpNode
            (BinaryOpNode (NumberNode (Finite False (2 ^ 52) (- 51))) PLUS
               (NumberNode (Finite False (3 * 2 ^ 51) (- 51))))
            MULTIPLY (NumberNode (Finite False (2 ^ 52) (- 50))), q')
      \<and> position (lexer q') = 8)"
proof -
  let ?e = "ETerm (TMul (TFactor (Paren (EAdd (ETerm (TFactor (Num ''2''))) (TFactor (Num ''3'')))))
    (Num ''4''))"
  let ?ws = "[[], [], [], [], [], '' '']"
  let ?ast = "BinaryOpNode
            (BinaryOpNode (NumberNode (Finite False (2 ^ 52) (- 51))) PLUS
               (NumberNode (Finite False (3 * 2 ^ 51) (- 51))))
            MULTIPLY (NumberNode (Finite False (2 ^ 52) (- 50)))"
  have b: "list_all blank ?ws" by (simp add: blank_def isspace_def)
  have l: "list_all is_literal (literals_e ?e)" by (simp add: is_literal_def isdigit_def)
  have c: "list_all converts (literals_e ?e)"
    by (simp add: converts_def isdigit_def double_run_simps Let_def)
  have s: "spell ?ws (lexemes_e ?e) = ''(2+3) *4''" by simp
  have a: "ast_e ?e = ?ast"
    by (simp add: literal_value_def isdigit_def double_run_simps Let_def)
  have t: "[NUL, CHR '')''] = [] \<or> hd [NUL, CHR '')''] = NUL" by simp
  have n: "NUL \<notin> set ''(2+3) *4''" by (simp add: NUL_def)
  have len: "length ''(2+3) *4'' = 8" by simp
  obtain q q' where q: "Parser_init (spell ?ws (lexemes_e ?e) @ []) = Inr q"
    "parse q = Inr (ast_e ?e, q')"
    using C5_parse_rejects_trailing_tokens [of _ _ _ _ ?ws ?e "[]"] b l c by blast
  then have q1: "Parser_init ''(2+3) *4'' = Inr q" "parse q = Inr (?ast, q')"
    unfolding s a by simp_all
  then have "input (lexer q') = ''(2+3) *4'' \<and> position (lexer q') = length ''(2+3) *4''"
    using C5_parse_rejects_trailing_tokens [of q "''(2+3) *4''" ?ast q'] n by blast
  then have "input (lexer q') = ''(2+3) *4'' \<and> position (lexer q') = 8"
    unfolding len .
  then have first: "\<exists>q q'. Parser_init ''(2+3) *4'' = Inr q \<and> parse q = Inr (?ast, q')
      \<and> input (lexer q') = ''(2+3) *4'' \<and> position (lexer q') = 8"
    using q1 by blast
  have "\<exists>q q'. Parser_init (spell ?ws (lexemes_e ?e) @ [NUL, CHR '')'']) = Inr q
           \<and> parse q = Inr (ast_e ?e, q')
           \<and> position (lexer q') = length (spell ?ws (lexemes_e ?e))"
    using C5_parse_rejects_trailing_tokens [of _ _ _ _ ?ws ?e "[NUL, CHR '')'']"] b l c t
    by blast
  then have "\<exists>q q'. Parser_init (''(2+3) *4'' @ [NUL, CHR '')'']) = Inr q
      \<and> parse q = Inr (?ast, q') \<and> position (lexer q') = 8"
    unfolding s a len .
  then show ?thesis using first by blast
qed

text \<open>
  Claim C5 as the spec states it fails on a text with a NUL byte inside: the tree parsed
  from \<open>2\<close>, NUL, \<open>)\<close> covers the \<open>2\<close> only, the parenthesis behind the NUL byte is never
  read, and the call returns 2.
\<close>

theorem C5_counterexample:
  "Parser_init [CHR ''2'', NUL, CHR '')'']
     = Inr \<lparr>lexer = \<lparr>input = [CHR ''2'', NUL, CHR '')''], position = 1, current_char = NUL\<rparr>,
            current_token = Token_of NUMBER (Finite False (2 ^ 52) (- 51))\<rparr>
   \<and> parse \<lparr>lexer = \<lparr>input = [CHR ''2'', NUL, CHR '')''], position = 1, current_char = NUL\<rparr>,
            current_token = Token_of NUMBER (Finite False (2 ^ 52) (- 51))\<rparr>
     = Inr (NumberNode (Finite False (2 ^ 52) (- 51)),
            \<lparr>lexer = \<lparr>input = [CHR ''2'', NUL, CHR '')''], position = 1, current_char = NUL\<rparr>,
             current_token = Token0 END_OF_FILE\<rparr>)
   \<and> compile_and_evaluate [CHR ''2'', NUL, CHR '')''] = Inr (Finite False (2 ^ 52) (- 51))
   \<and> (1::nat) < length [CHR ''2'', NUL, CHR '')'']"
  by (simp add: parser_run_simps lexer_run_simps double_run_simps)

lemma evaluate_ast:
  "list_all converts (literals_f f) \<Longrightarrow> evaluate (ast_f f) = value_f f"
  "list_all converts (literals_t t) \<Longrightarrow> evaluate (ast_t t) = value_t t"
  "list_all converts (literals_e e) \<Longrightarrow> evaluate (ast_e e) = value_e e"
  by (induction f and t and e)
     (auto simp: converts_def literal_value_def split: sum.splits)

lemma integer_literals:
  "integer_f f \<Longrightarrow> list_all is_literal (literals_f f)"
  "integer_t t \<Longrightarrow> list_all is_literal (literals_t t)"
  "integer_e e \<Longrightarrow> list_all is_literal (literals_e e)"
  by (induction f and t and e) (auto simp: is_literal_def list_all_iff)

text \<open>
  Every spelling of a derivation tree whose literals convert evaluates to the value of
  the tree.
\<close>

lemma compile_spelled:
  assumes "list_all blank ws" and "list_all is_literal (literals_e e)"
    and "list_all converts (literals_e e)"
  shows "compile_and_evaluate (spell ws (lexemes_e e)) =
     (case value_e e of
        Inl x \<Rightarrow> Inl (runtime_error (''Compilation error: '' @ what x))
      | Inr v \<Rightarrow> Inr v)"
proof -
  have "list_all (\<lambda>x. is_literal x \<and> converts x) (literals_e e)"
    using assms(2,3) by (simp add: list_all_iff)
  then obtain p p' where "Parser_init (spell ws (lexemes_e e)) = Inr p"
    "parse p = Inr (ast_e e, p')"
    using parse_spelled [OF assms(1)] by blast
  then show ?thesis
    using evaluate_ast(3) [OF assms(3)]
    by (simp add: compile_and_evaluate_def split: sum.splits)
qed

text \<open>
  Rounding loses nothing where the exact result is a double, so the arithmetic of integers
  of magnitude at most \<open>2\<^sup>5\<^sup>3\<close> is exact.
\<close>

lemma valof_powi:
  "valof (Finite s m e) = (if s then - 1 else 1) * of_nat m * 2 powi e"
  by (simp add: power_int_def field_simps)

lemma bitlen_bounds: "0 < n \<Longrightarrow> 2 ^ (bitlen n - 1) \<le> n \<and> n < 2 ^ bitlen n"
proof (induction n rule: bitlen.induct)
  case (1 n)
  show ?case
  proof (cases "n div 2 = 0")
    case True
    then have "n = 1" using "1.prems" by (cases n) auto
    then show ?thesis by (simp add: bitlen.simps [of "Suc 0"] bitlen.simps [of 0])
  next
    case False
    then have ih: "2 ^ (bitlen (n div 2) - 1) \<le> n div 2 \<and> n div 2 < 2 ^ bitlen (n div 2)"
      using "1.IH" "1.prems" by simp
    have pos: "0 < bitlen (n div 2)" using False by (subst bitlen.simps) simp
    have bl: "bitlen n = Suc (bitlen (n div 2))" using "1.prems" by (subst bitlen.simps) simp
    define P where "P = (2::nat) ^ (bitlen (n div 2) - 1)"
    define h where "h = n div 2"
    have pb: "(2::nat) ^ bitlen (n div 2) = 2 * P"
      using pos by (cases "bitlen (n div 2)") (simp_all add: P_def)
    have h: "P \<le> h" "h < 2 * P" using ih pb by (simp_all add: P_def h_def)
    have n: "2 * h \<le> n" "n < 2 * h + 2" unfolding h_def by presburger+
    have "(2::nat) ^ (bitlen n - 1) = 2 * P" "(2::nat) ^ bitlen n = 4 * P"
      using bl pb by simp_all
    then show ?thesis using h n by linarith
  qed
qed

lemma powi_ge_iff:
  "(2::rat) powi a \<le> 2 powi b \<longleftrightarrow> a \<le> b"
proof
  assume "(2::rat) powi a \<le> 2 powi b"
  show "a \<le> b"
  proof (rule ccontr)
    assume "\<not> a \<le> b"
    then have "(2::rat) powi b < 2 powi a" by (intro power_int_strict_increasing) auto
    then show False using \<open>2 powi a \<le> 2 powi b\<close> by simp
  qed
next
  assume "a \<le> b"
  then show "(2::rat) powi a \<le> 2 powi b" by (intro power_int_increasing) auto
qed

lemma powi_less_iff: "(2::rat) powi a < 2 powi b \<longleftrightarrow> a < b"
  using powi_ge_iff [of b a] by (auto simp: not_le [symmetric])

lemma powi_add: "(2::rat) powi (a + b) = 2 powi a * 2 powi b"
  by (simp add: power_int_add)

lemma powi_diff: "(2::rat) powi (a - b) = 2 powi a / 2 powi b"
  by (simp add: power_int_diff)

lemma powi_pos [simp]: "0 < (2::rat) powi a"
  by simp

lemma powi_nat: "0 \<le> k \<Longrightarrow> (2::rat) powi k = 2 ^ nat k"
  by (simp add: power_int_def)

lemma ge_pow2_iff:
  assumes "0 < d"
  shows "ge_pow2 n d k \<longleftrightarrow> (2::rat) powi k \<le> of_nat n / of_nat d"
proof (cases "0 \<le> k")
  case True
  have "(of_nat d * 2 ^ nat k \<le> (of_nat n :: rat)) = (d * 2 ^ nat k \<le> n)"
    by (metis of_nat_le_iff of_nat_mult of_nat_numeral of_nat_power)
  then show ?thesis using True assms
    by (simp add: ge_pow2_def powi_nat pos_le_divide_eq mult.commute)
next
  case False
  then have k: "(2::rat) powi k = 1 / 2 ^ nat (- k)"
    by (simp add: power_int_def field_simps)
  have "((of_nat d :: rat) \<le> of_nat n * 2 ^ nat (- k)) = (d \<le> n * 2 ^ nat (- k))"
    by (metis of_nat_le_iff of_nat_mult of_nat_numeral of_nat_power)
  then show ?thesis using False assms
    by (simp add: ge_pow2_def k pos_le_divide_eq pos_divide_le_eq mult.commute)
qed

lemma ilog2_bounds:
  assumes "0 < n" "0 < d"
  shows "(2::rat) powi (ilog2 n d) \<le> of_nat n / of_nat d"
    and "of_nat n / of_nat d < (2::rat) powi (ilog2 n d + 1)"
proof -
  define k where "k = int (bitlen n) - int (bitlen d)"
  define v :: rat where "v = of_nat n / of_nat d"
  have bn: "2 ^ (bitlen n - 1) \<le> n" "n < 2 ^ bitlen n" using bitlen_bounds [OF assms(1)] by auto
  have bd: "2 ^ (bitlen d - 1) \<le> d" "d < 2 ^ bitlen d" using bitlen_bounds [OF assms(2)] by auto
  have pn: "0 < bitlen n" using assms(1) by (subst bitlen.simps) simp
  have pd: "0 < bitlen d" using assms(2) by (subst bitlen.simps) simp
  have n1: "(2::rat) powi (int (bitlen n) - 1) \<le> of_nat n"
  proof -
    have "(2::rat) ^ (bitlen n - 1) \<le> of_nat n"
      using bn(1) by (metis of_nat_le_iff of_nat_numeral of_nat_power)
    moreover have "int (bitlen n) - 1 = int (bitlen n - 1)" using pn by simp
    ultimately show ?thesis by (simp only: power_int_of_nat)
  qed
  have n2: "of_nat n < (2::rat) powi (int (bitlen n))"
    using bn(2) by (metis of_nat_less_iff of_nat_numeral of_nat_power power_int_of_nat)
  have d1: "(2::rat) powi (int (bitlen d) - 1) \<le> of_nat d"
  proof -
    have "(2::rat) ^ (bitlen d - 1) \<le> of_nat d"
      using bd(1) by (metis of_nat_le_iff of_nat_numeral of_nat_power)
    moreover have "int (bitlen d) - 1 = int (bitlen d - 1)" using pd by simp
    ultimately show ?thesis by (simp only: power_int_of_nat)
  qed
  have d2: "of_nat d < (2::rat) powi (int (bitlen d))"
    using bd(2) by (metis of_nat_less_iff of_nat_numeral of_nat_power power_int_of_nat)
  have dpos: "0 < (of_nat d :: rat)" using assms(2) by simp
  have up: "v < 2 powi (k + 1)"
  proof -
    have "(k + 1) + (int (bitlen d) - 1) = int (bitlen n)" by (simp add: k_def)
    then have "2 powi (k + 1) * (2::rat) powi (int (bitlen d) - 1) = 2 powi (int (bitlen n))"
      by (simp only: flip: powi_add)
    then have "of_nat n < 2 powi (k + 1) * (2::rat) powi (int (bitlen d) - 1)"
      using n2 by simp
    also have "\<dots> \<le> 2 powi (k + 1) * of_nat d"
      using d1 by (intro mult_left_mono) auto
    finally show ?thesis using dpos by (simp add: v_def pos_divide_less_eq)
  qed
  have lo: "2 powi (k - 1) < v"
  proof -
    have e0: "(k - 1) + int (bitlen d) = int (bitlen n) - 1" by (simp add: k_def)
    have "2 powi (k - 1) * (2::rat) powi (int (bitlen d)) = 2 powi ((k - 1) + int (bitlen d))"
      by (rule powi_add [symmetric])
    then have e1: "2 powi (k - 1) * (2::rat) powi (int (bitlen d)) = 2 powi (int (bitlen n) - 1)"
      by (simp only: e0)
    have "2 powi (k - 1) * of_nat d < 2 powi (k - 1) * (2::rat) powi (int (bitlen d))"
      using d2 by (intro mult_strict_left_mono) auto
    also have "\<dots> = 2 powi (int (bitlen n) - 1)" by (rule e1)
    also have "\<dots> \<le> of_nat n" by (rule n1)
    finally show ?thesis using dpos by (simp add: v_def pos_less_divide_eq)
  qed
  have il: "ilog2 n d = (if 2 powi k \<le> v then k else k - 1)"
    using ge_pow2_iff [OF assms(2), of n k]
    by (simp add: ilog2_def k_def v_def Let_def)
  show "(2::rat) powi (ilog2 n d) \<le> of_nat n / of_nat d"
    using lo il by (auto simp: v_def)
  show "of_nat n / of_nat d < (2::rat) powi (ilog2 n d + 1)"
    using up il by (auto simp: v_def not_le)
qed

lemma rne_exact: "0 < d \<Longrightarrow> rne (m * d) d = m"
  by (simp add: rne_def)

lemma scaled_exact:
  assumes "0 < d" and "of_nat n / of_nat d * (2::rat) powi i = of_nat m"
  shows "scaled n d i = m"
proof (cases "0 \<le> i")
  case True
  have "(of_nat n :: rat) * 2 ^ nat i = of_nat m * of_nat d"
    using assms True by (simp add: powi_nat field_simps)
  then have "(of_nat (n * 2 ^ nat i) :: rat) = of_nat (m * d)" by simp
  then have "n * 2 ^ nat i = m * d" by (simp only: of_nat_eq_iff)
  then show ?thesis using True assms(1) by (simp add: scaled_def rne_exact)
next
  case False
  define P :: rat where "P = 2 ^ nat (- i)"
  have Ppos: "0 < P" by (simp add: P_def)
  have dpos: "0 < (of_nat d :: rat)" using assms(1) by simp
  from False have p: "(2::rat) powi i = 1 / P"
    by (simp add: power_int_def P_def field_simps)
  have "of_nat n / of_nat d * (1 / P) = (of_nat m :: rat)"
    using assms(2) unfolding p .
  then have "of_nat n / (of_nat d * P) = (of_nat m :: rat)" by simp
  then have "(of_nat n :: rat) = of_nat m * (of_nat d * P)"
    using dpos Ppos by (simp add: nonzero_divide_eq_eq)
  also have "\<dots> = of_nat (m * (d * 2 ^ nat (- i)))" by (simp add: P_def)
  finally have "n = m * (d * 2 ^ nat (- i))" by (simp only: of_nat_eq_iff)
  then show ?thesis using False assms(1) rne_exact [of "d * 2 ^ nat (- i)" m]
    by (simp add: scaled_def)
qed

lemma round_double_exact:
  assumes c: "canonical m e" and m: "0 < m" and d: "0 < d"
    and eq: "of_nat n / of_nat d * (2::rat) powi x = of_nat m * 2 powi e"
  shows "round_double s n d x = Finite s m e"
proof -
  define v :: rat where "v = of_nat n / of_nat d"
  have n: "0 < n"
  proof (rule ccontr)
    assume "\<not> 0 < n"
    then have "of_nat m * (2::rat) powi e = 0" using eq by simp
    then show False using m by simp
  qed
  have lo: "2 powi (ilog2 n d) \<le> v" and up: "v < 2 powi (ilog2 n d + 1)"
    using ilog2_bounds [OF n d] by (simp_all add: v_def)
  have veq: "v * 2 powi x = of_nat m * 2 powi e" using eq by (simp add: v_def)
  have lo': "2 powi (ilog2 n d + x) \<le> of_nat m * (2::rat) powi e"
  proof -
    have "2 powi (ilog2 n d + x) = 2 powi (ilog2 n d) * (2::rat) powi x" by (rule powi_add)
    also have "\<dots> \<le> v * 2 powi x" using lo by (intro mult_right_mono) auto
    finally show ?thesis unfolding veq .
  qed
  have up': "of_nat m * (2::rat) powi e < 2 powi (ilog2 n d + x + 1)"
  proof -
    have "v * 2 powi x < 2 powi (ilog2 n d + 1) * 2 powi x"
      using up by (intro mult_strict_right_mono) auto
    also have "\<dots> = 2 powi ((ilog2 n d + 1) + x)" by (rule powi_add [symmetric])
    also have "(ilog2 n d + 1) + x = ilog2 n d + x + 1" by simp
    finally show ?thesis unfolding veq .
  qed
  have "m < 2 ^ 53" using c by (auto simp: canonical_def)
  then have m53: "(of_nat m :: rat) < 2 powi 53" by simp
  have below: "ilog2 n d + x < k + e" if "(of_nat m :: rat) < 2 powi k" for k
  proof -
    have "2 powi (ilog2 n d + x) \<le> of_nat m * (2::rat) powi e" by (rule lo')
    also have "\<dots> < 2 powi k * 2 powi e"
      using that by (intro mult_strict_right_mono) auto
    also have "\<dots> = 2 powi (k + e)" by (rule powi_add [symmetric])
    finally show ?thesis by (simp only: powi_less_iff)
  qed
  have e': "max (ilog2 n d + x - 52) (- 1074) = e"
  proof (cases "2 ^ 52 \<le> m")
    case True
    then have m52: "(2::rat) powi 52 \<le> of_nat m" by simp
    have a: "ilog2 n d + x < 53 + e" using below [OF m53] .
    have "(2::rat) powi (52 + e) = 2 powi 52 * 2 powi e" by (rule powi_add)
    also have "\<dots> \<le> of_nat m * 2 powi e" using m52 by (intro mult_right_mono) auto
    also have "\<dots> < 2 powi (ilog2 n d + x + 1)" by (rule up')
    finally have b: "52 + e < ilog2 n d + x + 1" by (simp only: powi_less_iff)
    have "- 1074 \<le> e" using c by (auto simp: canonical_def)
    then show ?thesis using a b by simp
  next
    case False
    then have e: "e = - 1074" and "m < 2 ^ 52"
      using c by (auto simp: canonical_def)
    then have m52: "(of_nat m :: rat) < 2 powi 52" by simp
    have "ilog2 n d + x < 52 + e" using below [OF m52] .
    then show ?thesis using e by simp
  qed
  have "of_nat n / of_nat d * (2::rat) powi (x - e) = of_nat m"
  proof -
    have "of_nat n / of_nat d * (2::rat) powi (x - e) = (v * 2 powi x) / 2 powi e"
      by (simp add: v_def powi_diff)
    then show ?thesis by (simp add: veq)
  qed
  then have sc: "scaled n d (x - e) = m" by (rule scaled_exact [OF d])
  have "m \<noteq> 2 ^ 53" "e \<le> 971" using c by (auto simp: canonical_def)
  then show ?thesis using n sc e' by (simp add: round_double_def Let_def)
qed


lemma canonical_nat:
  assumes "0 < n" and "n \<le> 2 ^ 53"
  shows "\<exists>m e. canonical m e \<and> 0 < m \<and> (of_nat n :: rat) = of_nat m * 2 powi e"
proof (cases "n = 2 ^ 53")
  case True
  have "canonical (2 ^ 52) 1" by (simp add: canonical_def)
  moreover have "(of_nat n :: rat) = of_nat (2 ^ 52) * 2 powi 1" using True by simp
  moreover have "0 < (2::nat) ^ 52" by simp
  ultimately show ?thesis by blast
next
  case False
  define b where "b = bitlen n"
  have bn: "2 ^ (b - 1) \<le> n" "n < 2 ^ b"
    using bitlen_bounds [OF assms(1)] by (auto simp: b_def)
  have b0: "0 < b" using assms(1) unfolding b_def by (subst bitlen.simps) simp
  have "n < 2 ^ 53" using assms(2) False by simp
  then have "(2::nat) ^ (b - 1) < 2 ^ 53" using bn(1) by (rule le_less_trans [rotated])
  then have "b - 1 < 53" by (rule power_less_imp_less_exp [rotated]) simp
  then have b53: "b \<le> 53" by simp
  define m where "m = n * 2 ^ (53 - b)"
  have "2 ^ (b - 1) * 2 ^ (53 - b) \<le> m" unfolding m_def using bn(1) by simp
  moreover have "(b - 1) + (53 - b) = 52" using b0 b53 by simp
  ultimately have lo: "2 ^ 52 \<le> m" by (simp only: flip: power_add)
  have "m < 2 ^ b * 2 ^ (53 - b)" unfolding m_def using bn(2) by simp
  moreover have "b + (53 - b) = 53" using b53 by simp
  ultimately have up: "m < 2 ^ 53" by (simp only: flip: power_add)
  have c: "canonical m (int b - 53)" using lo up b0 b53 by (simp add: canonical_def)
  have "int b - 53 = - int (53 - b)" using b53 by simp
  then have "(2::rat) powi (int b - 53) = 1 / 2 ^ (53 - b)"
    by (simp only: power_int_minus power_int_of_nat inverse_eq_divide)
  then have "(of_nat n :: rat) = of_nat m * 2 powi (int b - 53)"
    by (simp add: m_def)
  moreover have "0 < m" using assms(1) by (simp add: m_def)
  ultimately show ?thesis using c by blast
qed

text \<open>Rounding an integer of magnitude at most \<open>2\<^sup>5\<^sup>3\<close> gives that integer.\<close>

lemma round_double_int:
  assumes d: "0 < d"
    and q: "(if s then - 1 else 1) * (of_nat n / of_nat d * 2 powi x) = (of_int z :: rat)"
    and z: "\<bar>z\<bar> \<le> 2 ^ 53"
  shows "\<exists>m e. round_double s n d x = Finite s m e \<and> valof (Finite s m e) = of_int z"
proof -
  define k where "k = nat \<bar>z\<bar>"
  have "\<bar>(if s then - 1 else 1) * (of_nat n / of_nat d * 2 powi x)\<bar> = \<bar>of_int z :: rat\<bar>"
    by (simp only: q)
  then have a: "of_nat n / of_nat d * 2 powi x = (of_nat k :: rat)"
    by (simp add: abs_mult k_def split: if_splits)
  have k53: "k \<le> 2 ^ 53" using z by (simp add: k_def)
  show ?thesis
  proof (cases "k = 0")
    case True
    then have "z = 0" by (simp add: k_def)
    moreover have "n = 0" using a True d by simp
    ultimately show ?thesis by (simp add: round_double_def dzero_def)
  next
    case False
    then obtain m e where c: "canonical m e" and m: "0 < m"
      and k: "(of_nat k :: rat) = of_nat m * 2 powi e"
      using canonical_nat [of k] k53 by auto
    have r: "round_double s n d x = Finite s m e"
      using round_double_exact [OF c m d] a k by simp
    have "valof (Finite s m e) = (if s then - 1 else 1) * (of_nat m * 2 powi e)"
      by (simp only: valof_powi mult.assoc)
    also have "\<dots> = (if s then - 1 else 1) * (of_nat n / of_nat d * 2 powi x)"
      by (simp only: a k)
    finally show ?thesis using r q by simp
  qed
qed

lemma aligned_value:
  "e0 \<le> e \<Longrightarrow> (of_int (aligned s m e e0) :: rat) * 2 powi e0 = valof (Finite s m e)"
proof -
  assume "e0 \<le> e"
  then have "(2::rat) powi e = 2 ^ nat (e - e0) * 2 powi e0"
    using powi_add [of "e - e0" e0] by (simp add: powi_nat)
  then show ?thesis by (simp only: valof_powi) (simp add: aligned_def)
qed

lemma dadd_int:
  assumes "valof (Finite s1 m1 e1) = of_int a" and "valof (Finite s2 m2 e2) = of_int b"
    and "\<bar>a + b\<bar> \<le> 2 ^ 53"
  shows "\<exists>s m e. dadd (Finite s1 m1 e1) (Finite s2 m2 e2) = Finite s m e
           \<and> valof (Finite s m e) = of_int (a + b)"
proof -
  define e0 where "e0 = min e1 e2"
  define r where "r = aligned s1 m1 e1 e0 + aligned s2 m2 e2 e0"
  have "e0 \<le> e1" "e0 \<le> e2" by (simp_all add: e0_def)
  then have "(of_int (aligned s1 m1 e1 e0) :: rat) * 2 powi e0 = of_int a"
    and "(of_int (aligned s2 m2 e2 e0) :: rat) * 2 powi e0 = of_int b"
    using assms(1,2) by (simp_all only: aligned_value)
  then have R: "(of_int r :: rat) * 2 powi e0 = of_int (a + b)"
    by (simp add: r_def distrib_right)
  show ?thesis
  proof (cases "r = 0")
    case True
    then have "a + b = 0" using R by simp
    moreover have "dadd (Finite s1 m1 e1) (Finite s2 m2 e2) = Finite (s1 \<and> s2) 0 (- 1074)"
      using True by (simp add: r_def e0_def Let_def dzero_def)
    ultimately show ?thesis by simp
  next
    case False
    have "(if r < 0 then - 1 else 1) * (of_nat (nat \<bar>r\<bar>) / of_nat 1 * 2 powi e0)
            = (of_int (a + b) :: rat)"
      using R by (simp split: if_splits)
    from round_double_int [OF zero_less_one this assms(3)]
    obtain m e where "round_double (r < 0) (nat \<bar>r\<bar>) 1 e0 = Finite (r < 0) m e"
      and v: "valof (Finite (r < 0) m e) = of_int (a + b)" by blast
    moreover have "dadd (Finite s1 m1 e1) (Finite s2 m2 e2) = round_double (r < 0) (nat \<bar>r\<bar>) 1 e0"
      using False by (simp add: r_def e0_def Let_def)
    ultimately have "dadd (Finite s1 m1 e1) (Finite s2 m2 e2) = Finite (r < 0) m e" by simp
    then show ?thesis using v by blast
  qed
qed

lemma dsub_int:
  assumes "valof (Finite s1 m1 e1) = of_int a" and "valof (Finite s2 m2 e2) = of_int b"
    and "\<bar>a - b\<bar> \<le> 2 ^ 53"
  shows "\<exists>s m e. dsub (Finite s1 m1 e1) (Finite s2 m2 e2) = Finite s m e
           \<and> valof (Finite s m e) = of_int (a - b)"
proof -
  have "valof (Finite (\<not> s2) m2 e2) = - valof (Finite s2 m2 e2)" by simp
  then have "valof (Finite (\<not> s2) m2 e2) = of_int (- b)"
    by (simp only: assms(2) of_int_minus)
  from dadd_int [OF assms(1) this] assms(3)
  obtain s m e where "dadd (Finite s1 m1 e1) (Finite (\<not> s2) m2 e2) = Finite s m e"
    and "valof (Finite s m e) = of_int (a - b)" by auto
  moreover have "dsub (Finite s1 m1 e1) (Finite s2 m2 e2)
      = dadd (Finite s1 m1 e1) (Finite (\<not> s2) m2 e2)" by (simp add: dsub_def)
  ultimately show ?thesis by metis
qed

lemma dmul_int:
  assumes "valof (Finite s1 m1 e1) = of_int a" and "valof (Finite s2 m2 e2) = of_int b"
    and "\<bar>a * b\<bar> \<le> 2 ^ 53"
  shows "\<exists>s m e. dmul (Finite s1 m1 e1) (Finite s2 m2 e2) = Finite s m e
           \<and> valof (Finite s m e) = of_int (a * b)"
proof -
  have "(if s1 \<noteq> s2 then - 1 else 1) * (of_nat (m1 * m2) / of_nat 1 * 2 powi (e1 + e2))
          = valof (Finite s1 m1 e1) * valof (Finite s2 m2 e2)"
    by (simp only: valof_powi powi_add) simp
  then have "(if s1 \<noteq> s2 then - 1 else 1) * (of_nat (m1 * m2) / of_nat 1 * 2 powi (e1 + e2))
          = (of_int (a * b) :: rat)"
    by (simp only: assms(1,2) of_int_mult)
  from round_double_int [OF zero_less_one this assms(3)]
  obtain m e where "round_double (s1 \<noteq> s2) (m1 * m2) 1 (e1 + e2) = Finite (s1 \<noteq> s2) m e"
    and v: "valof (Finite (s1 \<noteq> s2) m e) = of_int (a * b)" by blast
  then have "dmul (Finite s1 m1 e1) (Finite s2 m2 e2) = Finite (s1 \<noteq> s2) m e" by simp
  then show ?thesis using v by blast
qed

lemma ddiv_int:
  assumes "valof (Finite s1 m1 e1) = of_int a" and "valof (Finite s2 m2 e2) = of_int b"
    and "b \<noteq> 0" and "b dvd a" and "\<bar>a div b\<bar> \<le> 2 ^ 53"
  shows "\<exists>s m e. ddiv (Finite s1 m1 e1) (Finite s2 m2 e2) = Finite s m e
           \<and> valof (Finite s m e) = of_int (a div b)"
proof -
  have m2: "0 < m2"
  proof (rule ccontr)
    assume "\<not> 0 < m2"
    then have "valof (Finite s2 m2 e2) = 0" by simp
    then show False using assms(2,3) by (metis of_int_eq_0_iff)
  qed
  have "(if s1 \<noteq> s2 then - 1 else 1) * (of_nat m1 / of_nat m2 * 2 powi (e1 - e2))
          = valof (Finite s1 m1 e1) / valof (Finite s2 m2 e2)"
    by (simp only: valof_powi powi_diff) simp
  also have "\<dots> = of_int a / of_int b" by (simp only: assms(1,2))
  also have "\<dots> = of_int (a div b)" by (simp only: of_int_div [OF assms(4)])
  finally have "(if s1 \<noteq> s2 then - 1 else 1) * (of_nat m1 / of_nat m2 * 2 powi (e1 - e2))
          = (of_int (a div b) :: rat)" .
  from round_double_int [OF m2 this assms(5)]
  obtain m e where "round_double (s1 \<noteq> s2) m1 m2 (e1 - e2) = Finite (s1 \<noteq> s2) m e"
    and v: "valof (Finite (s1 \<noteq> s2) m e) = of_int (a div b)" by blast
  then have "ddiv (Finite s1 m1 e1) (Finite s2 m2 e2) = Finite (s1 \<noteq> s2) m e"
    using m2 by simp
  then show ?thesis using v by blast
qed

lemma stod_int:
  assumes "ds \<noteq> []" and "list_all isdigit ds" and "digits_val ds \<le> 2 ^ 53"
  shows "\<exists>m e. stod ds = Inr (Finite False m e)
           \<and> valof (Finite False m e) = of_int (int (digits_val ds))"
proof -
  have t: "takeWhile isdigit ds = ds" "dropWhile isdigit ds = []"
    using assms(2) by (simp_all add: list_all_iff)
  have "(if False then - 1 else 1) * (of_nat (digits_val ds) / of_nat 1 * 2 powi 0)
          = (of_int (int (digits_val ds)) :: rat)" by simp
  from round_double_int [OF _ this] assms(3)
  obtain m e where r: "round_double False (digits_val ds) 1 0 = Finite False m e"
    and v: "valof (Finite False m e) = of_int (int (digits_val ds))" by auto
  have "\<not> is_tiny (digits_val ds) 1 0" if "digits_val ds \<noteq> 0"
  proof -
    have "(2::rat) powi 0 \<le> of_nat (digits_val ds) / of_nat 1" using that by simp
    also have "\<dots> < (2::rat) powi (ilog2 (digits_val ds) 1 + 1)"
      using that by (intro ilog2_bounds(2)) simp_all
    finally have "(2::rat) powi 0 < 2 powi (ilog2 (digits_val ds) 1 + 1)" .
    then have "0 < ilog2 (digits_val ds) 1 + 1" by (simp only: powi_less_iff)
    then show ?thesis by (simp add: is_tiny_def Let_def)
  qed
  then have "stod ds = Inr (Finite False m e)"
    using assms(1) r unfolding stod_def t by (auto simp: Let_def)
  then show ?thesis using v by blast
qed


lemma yieldsI:
  "r = Inr (Finite s m k) \<Longrightarrow> valof (Finite s m k) = of_int z \<Longrightarrow> yields r z"
  by (simp add: yields_def)

lemma yieldsE:
  assumes "yields r z"
  obtains s m k where "r = Inr (Finite s m k)" and "valof (Finite s m k) = of_int z"
  using assms by (auto simp: yields_def split: sum.splits double.splits)

lemma in_range_Some: "in_range a = Some z \<longleftrightarrow> z = a \<and> \<bar>a\<bar> \<le> 2 ^ 53"
  by (auto simp: in_range_def)

lemma yields_nonzero:
  assumes "valof (Finite s m k) = of_int b" and "b \<noteq> 0"
  shows "\<not> is_zero (Finite s m k)"
proof
  assume "is_zero (Finite s m k)"
  then have "valof (Finite s m k) = 0" by simp
  then show False using assms by (metis of_int_eq_0_iff)
qed

lemma value_exact:
  "exact_f f = Some z \<Longrightarrow> yields (value_f f) z"
  "exact_t t = Some z \<Longrightarrow> yields (value_t t) z"
  "exact_e e = Some z \<Longrightarrow> yields (value_e e) z"
proof (induction f and t and e arbitrary: z and z and z)
  case (Num ds)
  then have ds: "ds \<noteq> []" "list_all isdigit ds" and z: "z = int (digits_val ds)"
    and r: "\<bar>int (digits_val ds)\<bar> \<le> 2 ^ 53"
    by (auto simp: in_range_Some split: if_splits)
  from r have "digits_val ds \<le> 2 ^ 53" by simp
  from stod_int [OF ds this] show ?case unfolding z by (auto intro: yieldsI simp del: valof.simps)
next
  case (Paren e)
  then show ?case by simp
next
  case (Pos f)
  then show ?case by simp
next
  case (Neg f)
  then obtain a where a: "exact_f f = Some a" and z: "z = - a"
    by (auto split: option.splits)
  from Neg.IH [OF a] obtain s m k where v: "value_f f = Inr (Finite s m k)"
    and x: "valof (Finite s m k) = of_int a" by (rule yieldsE)
  have "valof (Finite (\<not> s) m k) = - valof (Finite s m k)" by simp
  then have "valof (Finite (\<not> s) m k) = of_int z" unfolding z by (simp only: x of_int_minus)
  moreover have "value_f (Neg f) = Inr (Finite (\<not> s) m k)" using v by simp
  ultimately show ?case by (rule yieldsI [rotated])
next
  case (TFactor f)
  then show ?case by simp
next
  case (TMul t f)
  then obtain a b where a: "exact_t t = Some a" and b: "exact_f f = Some b"
    and z: "z = a * b" and r: "\<bar>a * b\<bar> \<le> 2 ^ 53"
    by (auto simp: in_range_Some split: option.splits)
  from TMul.IH(1) [OF a] obtain s1 m1 k1 where v1: "value_t t = Inr (Finite s1 m1 k1)"
    and x1: "valof (Finite s1 m1 k1) = of_int a" by (rule yieldsE)
  from TMul.IH(2) [OF b] obtain s2 m2 k2 where v2: "value_f f = Inr (Finite s2 m2 k2)"
    and x2: "valof (Finite s2 m2 k2) = of_int b" by (rule yieldsE)
  from dmul_int [OF x1 x2 r] obtain s m k
    where "dmul (Finite s1 m1 k1) (Finite s2 m2 k2) = Finite s m k"
      and "valof (Finite s m k) = of_int z" unfolding z by blast
  moreover from this(1) have "value_t (TMul t f) = Inr (Finite s m k)" using v1 v2 by simp
  ultimately show ?case by (blast intro: yieldsI)
next
  case (TDiv t f)
  then obtain a b where a: "exact_t t = Some a" and b: "exact_f f = Some b"
    and z: "z = a div b" and r: "\<bar>a div b\<bar> \<le> 2 ^ 53" and b0: "b \<noteq> 0" and d: "a mod b = 0"
    by (auto simp: in_range_Some split: option.splits if_splits)
  from d have dv: "b dvd a" by (simp only: dvd_eq_mod_eq_0)
  from TDiv.IH(1) [OF a] obtain s1 m1 k1 where v1: "value_t t = Inr (Finite s1 m1 k1)"
    and x1: "valof (Finite s1 m1 k1) = of_int a" by (rule yieldsE)
  from TDiv.IH(2) [OF b] obtain s2 m2 k2 where v2: "value_f f = Inr (Finite s2 m2 k2)"
    and x2: "valof (Finite s2 m2 k2) = of_int b" by (rule yieldsE)
  have nz: "\<not> is_zero (Finite s2 m2 k2)" using x2 b0 by (rule yields_nonzero)
  from ddiv_int [OF x1 x2 b0 dv r] obtain s m k
    where "ddiv (Finite s1 m1 k1) (Finite s2 m2 k2) = Finite s m k"
      and "valof (Finite s m k) = of_int z" unfolding z by blast
  moreover from this(1) have "value_t (TDiv t f) = Inr (Finite s m k)"
    using v1 v2 nz by simp
  ultimately show ?case by (blast intro: yieldsI)
next
  case (ETerm t)
  then show ?case by simp
next
  case (EAdd e t)
  then obtain a b where a: "exact_e e = Some a" and b: "exact_t t = Some b"
    and z: "z = a + b" and r: "\<bar>a + b\<bar> \<le> 2 ^ 53"
    by (auto simp: in_range_Some split: option.splits)
  from EAdd.IH(1) [OF a] obtain s1 m1 k1 where v1: "value_e e = Inr (Finite s1 m1 k1)"
    and x1: "valof (Finite s1 m1 k1) = of_int a" by (rule yieldsE)
  from EAdd.IH(2) [OF b] obtain s2 m2 k2 where v2: "value_t t = Inr (Finite s2 m2 k2)"
    and x2: "valof (Finite s2 m2 k2) = of_int b" by (rule yieldsE)
  from dadd_int [OF x1 x2 r] obtain s m k
    where "dadd (Finite s1 m1 k1) (Finite s2 m2 k2) = Finite s m k"
      and "valof (Finite s m k) = of_int z" unfolding z by blast
  moreover from this(1) have "value_e (EAdd e t) = Inr (Finite s m k)" using v1 v2 by simp
  ultimately show ?case by (blast intro: yieldsI)
next
  case (ESub e t)
  then obtain a b where a: "exact_e e = Some a" and b: "exact_t t = Some b"
    and z: "z = a - b" and r: "\<bar>a - b\<bar> \<le> 2 ^ 53"
    by (auto simp: in_range_Some split: option.splits)
  from ESub.IH(1) [OF a] obtain s1 m1 k1 where v1: "value_e e = Inr (Finite s1 m1 k1)"
    and x1: "valof (Finite s1 m1 k1) = of_int a" by (rule yieldsE)
  from ESub.IH(2) [OF b] obtain s2 m2 k2 where v2: "value_t t = Inr (Finite s2 m2 k2)"
    and x2: "valof (Finite s2 m2 k2) = of_int b" by (rule yieldsE)
  from dsub_int [OF x1 x2 r] obtain s m k
    where "dsub (Finite s1 m1 k1) (Finite s2 m2 k2) = Finite s m k"
      and "valof (Finite s m k) = of_int z" unfolding z by blast
  moreover from this(1) have "value_e (ESub e t) = Inr (Finite s m k)" using v1 v2 by simp
  ultimately show ?case by (blast intro: yieldsI)
qed

lemma exact_literals:
  "exact_f f = Some z \<Longrightarrow> list_all (\<lambda>x. is_literal x \<and> converts x) (literals_f f)"
  "exact_t t = Some z \<Longrightarrow> list_all (\<lambda>x. is_literal x \<and> converts x) (literals_t t)"
  "exact_e e = Some z \<Longrightarrow> list_all (\<lambda>x. is_literal x \<and> converts x) (literals_e e)"
proof (induction f and t and e arbitrary: z and z and z)
  case (Num ds)
  then have ds: "ds \<noteq> []" "list_all isdigit ds" and "\<bar>int (digits_val ds)\<bar> \<le> 2 ^ 53"
    by (auto simp: in_range_Some split: if_splits)
  then have "digits_val ds \<le> 2 ^ 53" by simp
  from stod_int [OF ds this] have "converts ds" by (auto simp: converts_def simp del: valof.simps)
  moreover have "is_literal ds" using ds by (auto simp: is_literal_def list_all_iff)
  ultimately show ?case by simp
qed (auto split: option.splits if_splits)

lemma compile_exact:
  assumes "list_all blank ws" and "exact_e e = Some z"
  shows "yields (compile_and_evaluate (spell ws (lexemes_e e))) z"
proof -
  have l: "list_all is_literal (literals_e e)" "list_all converts (literals_e e)"
    using exact_literals(3) [OF assms(2)] by (simp_all add: list_all_iff)
  from value_exact(3) [OF assms(2)] obtain s m k where "value_e e = Inr (Finite s m k)"
    and v: "valof (Finite s m k) = of_int z" by (rule yieldsE)
  then have "compile_and_evaluate (spell ws (lexemes_e e)) = Inr (Finite s m k)"
    using compile_spelled [OF assms(1) l] by simp
  then show ?thesis using v by (rule yieldsI)
qed

text \<open>
  Claim C1, as the code has it. For every expression built from integer literals, the four
  binary operators and parentheses, spelled with any white space around its lexemes, whose
  literals \<^verbatim>\<open>std::stod\<close> converts, \<^verbatim>\<open>compile_and_evaluate\<close> returns the value of the
  expression's derivation tree (products and quotients bind tighter than sums and
  differences, operators of one level group from the left) in double arithmetic, where
  each operation rounds; a division by zero in it is the wrapped error. The result is the
  mathematical value whenever every literal and every intermediate result is an integer
  of magnitude at most \<open>2\<^sup>5\<^sup>3\<close>, no divisor is zero and every quotient is an integer (unary
  signs included). \<open>2 + 3 * 4\<close> is 14 and \<open>10 - 5 - 2\<close> is 3.
\<close>

theorem C1_value_of_derivation_tree:
  "(list_all blank ws \<longrightarrow> integer_e e \<longrightarrow> list_all converts (literals_e e) \<longrightarrow>
      compile_and_evaluate (spell ws (lexemes_e e)) =
        (case value_e e of
           Inl x \<Rightarrow> Inl (runtime_error (''Compilation error: '' @ what x))
         | Inr v \<Rightarrow> Inr v))
   \<and> (list_all blank ws \<longrightarrow> exact_e e = Some z \<longrightarrow>
        (\<exists>s m k. compile_and_evaluate (spell ws (lexemes_e e)) = Inr (Finite s m k)
                 \<and> valof (Finite s m k) = of_int z))
   \<and> compile_and_evaluate ''2 + 3 * 4'' = Inr (Finite False (14 * 2 ^ 49) (- 49))
   \<and> valof (Finite False (14 * 2 ^ 49) (- 49)) = 14
   \<and> compile_and_evaluate ''10 - 5 - 2'' = Inr (Finite False (3 * 2 ^ 51) (- 51))
   \<and> valof (Finite False (3 * 2 ^ 51) (- 51)) = 3"
proof (intro conjI impI)
  assume "list_all blank ws" "integer_e e" "list_all converts (literals_e e)"
  then show "compile_and_evaluate (spell ws (lexemes_e e)) =
        (case value_e e of
           Inl x \<Rightarrow> Inl (runtime_error (''Compilation error: '' @ what x))
         | Inr v \<Rightarrow> Inr v)"
    using compile_spelled [OF _ integer_literals(3)] by blast
next
  assume "list_all blank ws" "exact_e e = Some z"
  then have "yields (compile_and_evaluate (spell ws (lexemes_e e))) z"
    by (rule compile_exact)
  then show "\<exists>s m k. compile_and_evaluate (spell ws (lexemes_e e)) = Inr (Finite s m k)
                 \<and> valof (Finite s m k) = of_int z"
    by (rule yieldsE) blast
next
  show "compile_and_evaluate ''2 + 3 * 4'' = Inr (Finite False (14 * 2 ^ 49) (- 49))"
    by (simp add: parser_run_simps lexer_run_simps double_run_simps)
  show "compile_and_evaluate ''10 - 5 - 2'' = Inr (Finite False (3 * 2 ^ 51) (- 51))"
    by (simp add: parser_run_simps lexer_run_simps double_run_simps)
  show "valof (Finite False (14 * 2 ^ 49) (- 49)) = 14" by simp
  show "valof (Finite False (3 * 2 ^ 51) (- 51)) = 3" by simp
qed

text \<open>
  The witness: \<open>10 - 5 - 2\<close>, spelled with blanks, tabs and a line break, is the tree of
  \<open>(10 - 5) - 2\<close>; its mathematical value is 3, and so is the double returned.
\<close>

theorem C1_witness:
  "compile_and_evaluate (''  10'' @ [CHR 0x09] @ ''-5 -'' @ [CHR 0x0A] @ ''2 '')
     = Inr (Finite False (3 * 2 ^ 51) (- 51))
   \<and> exact_e (ESub (ESub (ETerm (TFactor (Num ''10''))) (TFactor (Num ''5'')))
                (TFactor (Num ''2''))) = Some 3
   \<and> (\<exists>s m k. compile_and_evaluate (''  10'' @ [CHR 0x09] @ ''-5 -'' @ [CHR 0x0A] @ ''2 '')
                 = Inr (Finite s m k) \<and> valof (Finite s m k) = 3)"
proof -
  let ?e = "ESub (ESub (ETerm (TFactor (Num ''10''))) (TFactor (Num ''5''))) (TFactor (Num ''2''))"
  let ?ws = "[''  '', [CHR 0x09], [], '' '', [CHR 0x0A], '' '']"
  have c: "list_all converts (literals_e ?e)"
    by (simp add: converts_def isdigit_def double_run_simps Let_def)
  have v: "value_e ?e = Inr (Finite False (3 * 2 ^ 51) (- 51))"
    by (simp add: isdigit_def double_run_simps Let_def)
  have b: "list_all blank ?ws" by (simp add: blank_def isspace_def)
  have i: "integer_e ?e" by (simp add: isdigit_def)
  have x: "exact_e ?e = Some 3"
    by (simp add: isdigit_def in_range_def digits_val_def digit_val_def)
  have s: "spell ?ws (lexemes_e ?e) = ''  10'' @ [CHR 0x09] @ ''-5 -'' @ [CHR 0x0A] @ ''2 ''"
    by simp
  have r: "compile_and_evaluate (spell ?ws (lexemes_e ?e)) = Inr (Finite False (3 * 2 ^ 51) (- 51))"
    using C1_value_of_derivation_tree [of ?ws ?e 3] b i c v by simp
  have "\<exists>s m k. compile_and_evaluate (spell ?ws (lexemes_e ?e)) = Inr (Finite s m k)
                 \<and> valof (Finite s m k) = of_int 3"
    using C1_value_of_derivation_tree [of ?ws ?e 3] b x by blast
  then show ?thesis using r x unfolding s of_int_numeral by blast
qed

text \<open>
  Claim C1 as the spec states it fails where double arithmetic rounds: the quotient
  \<open>1 / 49\<close> is rounded, and multiplied by 49 it gives \<open>1 - 2\<^sup>-\<^sup>5\<^sup>3\<close>, not 1.
\<close>

theorem C1_counterexample:
  "compile_and_evaluate ''1 / 49 * 49'' = Inr (Finite False 9007199254740991 (- 53))
   \<and> valof (Finite False 9007199254740991 (- 53)) \<noteq> 1 / 49 * 49"
  by (simp add: parser_run_simps lexer_run_simps double_run_simps)

lemma lexemes_signed:
  "set ops \<subseteq> {PLUS, MINUS} \<Longrightarrow>
     lexemes_f (signed ops f) = map op_lexeme ops @ lexemes_f f"
  by (induction ops) (auto simp: op_lexeme_def)

lemma ast_signed: "set ops \<subseteq> {PLUS, MINUS} \<Longrightarrow> ast_f (signed ops f) = foldr UnaryOpNode ops (ast_f f)"
  by (induction ops) auto

lemma literals_signed [simp]: "literals_f (signed ops f) = literals_f f"
  by (induction ops) auto

lemma lexemes_binary:
  "op \<in> {PLUS, MINUS, MULTIPLY, DIVIDE} \<Longrightarrow>
     lexemes_e (binary f op g) = lexemes_f f @ op_lexeme op # lexemes_f g"
  by (auto simp: binary_def op_lexeme_def)

lemma ast_binary:
  "op \<in> {PLUS, MINUS, MULTIPLY, DIVIDE} \<Longrightarrow>
     ast_e (binary f op g) = BinaryOpNode (ast_f f) op (ast_f g)"
  by (auto simp: binary_def)

lemma literals_binary [simp]: "literals_e (binary f op g) = literals_f f @ literals_f g"
  by (simp add: binary_def)

text \<open>
  Claim C7. A run of unary signs in front of a literal parses to as many nested unary
  nodes, one for each sign, in order, around the number; followed by a binary operator
  and a second literal, the signed literal as a whole is the left operand, whatever the
  operator. A unary PLUS node evaluates to the value of its operand and a unary MINUS
  node to its negation. \<open>--3\<close> is 3 and \<open>-3 + 4\<close> is 1.
\<close>

theorem C7_unary_signs_nest:
  "(list_all blank ws \<longrightarrow> set ops \<subseteq> {PLUS, MINUS} \<longrightarrow> is_literal a \<longrightarrow> converts a \<longrightarrow>
      (\<exists>p p'. Parser_init (spell ws (map op_lexeme ops @ [a])) = Inr p
         \<and> parse p = Inr (foldr UnaryOpNode ops (NumberNode (literal_value a)), p')))
   \<and> (list_all blank ws \<longrightarrow> set ops \<subseteq> {PLUS, MINUS} \<longrightarrow> is_literal a \<longrightarrow> converts a \<longrightarrow>
      bop \<in> {PLUS, MINUS, MULTIPLY, DIVIDE} \<longrightarrow> is_literal b \<longrightarrow> converts b \<longrightarrow>
      (\<exists>p p'. Parser_init (spell ws (map op_lexeme ops @ [a, op_lexeme bop, b])) = Inr p
         \<and> parse p = Inr (BinaryOpNode (foldr UnaryOpNode ops (NumberNode (literal_value a)))
                            bop (NumberNode (literal_value b)), p')))
   \<and> evaluate (UnaryOpNode PLUS operand) = evaluate operand
   \<and> evaluate (UnaryOpNode MINUS operand)
       = (case evaluate operand of Inl e \<Rightarrow> Inl e | Inr v \<Rightarrow> Inr (dneg v))
   \<and> compile_and_evaluate ''--3'' = Inr (Finite False (3 * 2 ^ 51) (- 51))
   \<and> valof (Finite False (3 * 2 ^ 51) (- 51)) = 3
   \<and> compile_and_evaluate ''-3 + 4'' = Inr (Finite False (2 ^ 52) (- 52))
   \<and> valof (Finite False (2 ^ 52) (- 52)) = 1"
proof (intro conjI impI)
  assume ws: "list_all blank ws" and ops: "set ops \<subseteq> {PLUS, MINUS}"
    and a: "is_literal a" "converts a"
  let ?e = "ETerm (TFactor (signed ops (Num a)))"
  have "list_all (\<lambda>x. is_literal x \<and> converts x) (literals_e ?e)" using a by simp
  from parse_spelled [OF ws this]
  show "\<exists>p p'. Parser_init (spell ws (map op_lexeme ops @ [a])) = Inr p
         \<and> parse p = Inr (foldr UnaryOpNode ops (NumberNode (literal_value a)), p')"
    by (simp add: lexemes_signed [OF ops] ast_signed [OF ops])
  assume bop: "bop \<in> {PLUS, MINUS, MULTIPLY, DIVIDE}" and b: "is_literal b" "converts b"
  let ?e2 = "binary (signed ops (Num a)) bop (Num b)"
  have "list_all (\<lambda>x. is_literal x \<and> converts x) (literals_e ?e2)" using a b by simp
  from parse_spelled [OF ws this]
  show "\<exists>p p'. Parser_init (spell ws (map op_lexeme ops @ [a, op_lexeme bop, b])) = Inr p
         \<and> parse p = Inr (BinaryOpNode (foldr UnaryOpNode ops (NumberNode (literal_value a)))
                            bop (NumberNode (literal_value b)), p')"
    by (simp add: lexemes_binary [OF bop] ast_binary [OF bop] lexemes_signed [OF ops]
        ast_signed [OF ops])
next
  show "evaluate (UnaryOpNode PLUS operand) = evaluate operand"
    by (simp split: sum.splits)
  show "evaluate (UnaryOpNode MINUS operand)
       = (case evaluate operand of Inl e \<Rightarrow> Inl e | Inr v \<Rightarrow> Inr (dneg v))"
    by (simp split: sum.splits)
  show "compile_and_evaluate ''--3'' = Inr (Finite False (3 * 2 ^ 51) (- 51))"
    by (simp add: parser_run_simps lexer_run_simps double_run_simps)
  show "compile_and_evaluate ''-3 + 4'' = Inr (Finite False (2 ^ 52) (- 52))"
    by (simp add: parser_run_simps lexer_run_simps double_run_simps)
  show "valof (Finite False (3 * 2 ^ 51) (- 51)) = 3" by simp
  show "valof (Finite False (2 ^ 52) (- 52)) = 1" by simp
qed

text \<open>
  The witness: \<open>-+-5*2\<close> parses to the product of the three nested unary nodes around 5
  and the number 2.
\<close>

theorem C7_witness:
  "\<exists>p p'. Parser_init ''-+-5 *2'' = Inr p
     \<and> parse p = Inr (BinaryOpNode
          (UnaryOpNode MINUS (UnaryOpNode PLUS (UnaryOpNode MINUS
             (NumberNode (Finite False (5 * 2 ^ 50) (- 50))))))
          MULTIPLY (NumberNode (Finite False (2 ^ 52) (- 51))), p')"
proof -
  have a: "is_literal ''5''" "converts ''5''" "literal_value ''5'' = Finite False (5 * 2 ^ 50) (- 50)"
    by (simp_all add: is_literal_def converts_def literal_value_def isdigit_def double_run_simps Let_def)
  have b: "is_literal ''2''" "converts ''2''" "literal_value ''2'' = Finite False (2 ^ 52) (- 51)"
    by (simp_all add: is_literal_def converts_def literal_value_def isdigit_def double_run_simps Let_def)
  have ws: "list_all blank [[], [], [], [], '' '']" by (simp add: blank_def isspace_def)
  have "spell [[], [], [], [], '' ''] (map op_lexeme [MINUS, PLUS, MINUS] @ [''5'', op_lexeme MULTIPLY, ''2''])
      = ''-+-5 *2''"
    by (simp add: op_lexeme_def)
  then show ?thesis
    using C7_unary_signs_nest [of "[[], [], [], [], '' '']" "[MINUS, PLUS, MINUS]" "''5''" MULTIPLY "''2''"]
      a b ws
    by (simp add: op_lexeme_def)
qed

end
